theory Spec2Isabelle
  imports Complex_Main "HOL-Library.Word"
begin

unbundle bit_operations_syntax

section \<open>Errors\<close>

text \<open>
  The exceptions the program can raise, as values. \<open>UsageError\<close> is the exit of the
  argument parser on an argument outside its \<open>choices\<close>.
\<close>

datatype error = ValueError | ZeroDivisionError | OverflowError | UsageError

definition bind_err :: "error + 'a \<Rightarrow> ('a \<Rightarrow> error + 'b) \<Rightarrow> error + 'b" where
  "bind_err r f = (case r of Inl e \<Rightarrow> Inl e | Inr v \<Rightarrow> f v)"

section \<open>The Chinese remainder step of \<open>find_max_overlap\<close>\<close>

text \<open>
  \<open>pow(x, -1, p)\<close> of Python's integers: the loop of CPython's \<open>long_invmod\<close> (the
  extended Euclidean algorithm with floor division), then the reduction into the range of
  the modulus. A modulus 0 and a base that is not invertible raise \<open>ValueError\<close>; a
  negative modulus gives a result of its own sign.
\<close>

function invmod_loop :: "int \<Rightarrow> int \<Rightarrow> int \<Rightarrow> int \<Rightarrow> int \<times> int" where
  "invmod_loop a n b c =
     (if n = 0 then (a, b) else invmod_loop n (a mod n) c (b - (a div n) * c))"
  by pat_completeness auto
termination
  by (relation "measure (\<lambda>(a, n, b, c). nat \<bar>n\<bar>)") (auto simp: abs_mod_less)

definition long_invmod :: "int \<Rightarrow> int \<Rightarrow> int option" where
  "long_invmod a n = (case invmod_loop a n 1 0 of (g, b) \<Rightarrow> if g = 1 then Some b else None)"

definition pow_neg1 :: "int \<Rightarrow> int \<Rightarrow> error + int" where
  "pow_neg1 x p =
     (if p = 0 then Inl ValueError
      else if \<bar>p\<bar> = 1 then Inr 0
      else (case long_invmod x \<bar>p\<bar> of
              None \<Rightarrow> Inl ValueError
            | Some b \<Rightarrow>
                (let z = b mod \<bar>p\<bar> in Inr (if p < 0 \<and> z \<noteq> 0 then z - \<bar>p\<bar> else z))))"

text \<open>
  \<open>M // p\<close> raises on a zero divisor; the generator of the sum stops at the first
  exception.
\<close>

definition floordiv :: "int \<Rightarrow> int \<Rightarrow> error + int" where
  "floordiv x y = (if y = 0 then Inl ZeroDivisionError else Inr (x div y))"

definition py_mod :: "int \<Rightarrow> int \<Rightarrow> error + int" where
  "py_mod x y = (if y = 0 then Inl ZeroDivisionError else Inr (x mod y))"

definition crt_term :: "int \<Rightarrow> int \<times> int \<Rightarrow> error + int" where
  "crt_term M po =
     (case po of (p, offset) \<Rightarrow>
        bind_err (floordiv M p) (\<lambda>q.
        bind_err (floordiv M p) (\<lambda>q'.
        bind_err (pow_neg1 q' p) (\<lambda>r. Inr (offset * q * r)))))"

fun crt_terms :: "int \<Rightarrow> (int \<times> int) list \<Rightarrow> error + int list" where
  "crt_terms M [] = Inr []"
| "crt_terms M (po # pos) =
     bind_err (crt_term M po) (\<lambda>t. bind_err (crt_terms M pos) (\<lambda>ts. Inr (t # ts)))"

definition crt :: "int list \<Rightarrow> int list \<Rightarrow> error + int" where
  "crt modulos offsets =
     (let M = prod_list modulos in
      bind_err (crt_terms M (zip modulos offsets)) (\<lambda>ts. py_mod (sum_list ts) M))"


text \<open>The property the moduli must have, as a function on the list.\<close>

definition pairwise_coprime :: "int list \<Rightarrow> bool" where
  "pairwise_coprime ms = sorted_wrt (\<lambda>a b. gcd a b = 1) ms"

section \<open>Decimal and hexadecimal output\<close>

function digits_of :: "nat \<Rightarrow> nat \<Rightarrow> nat list" where
  "digits_of base n =
     (if n < base \<or> base < 2 then [n] else digits_of base (n div base) @ [n mod base])"
  by pat_completeness auto
termination
  by (relation "measure (\<lambda>(base, n). n)") auto

definition digit_char :: "nat \<Rightarrow> char" where
  "digit_char d = ''0123456789abcdef'' ! d"

definition str :: "int \<Rightarrow> string" where
  "str x = (if x < 0 then ''-'' else []) @ map digit_char (digits_of 10 (nat \<bar>x\<bar>))"

text \<open>The format \<open>#x\<close>.\<close>

definition hex :: "int \<Rightarrow> string" where
  "hex x = (if x < 0 then ''-'' else []) @ ''0x'' @ map digit_char (digits_of 16 (nat \<bar>x\<bar>))"

section \<open>\<open>get_string_addresses\<close>\<close>

type_synonym byte = "8 word"

definition is_text_byte :: "byte \<Rightarrow> bool" where
  "is_text_byte c = (c = 0x0A \<or> c = 0x0D \<or> c = 0x09 \<or> c = 0x0C \<or> (0x20 \<le> c \<and> c \<le> 0x7E))"

definition is_cont :: "byte \<Rightarrow> bool" where
  "is_cont c = (0x80 \<le> c \<and> c \<le> 0xBF)"

text \<open>
  One pass through the group \<open>(?:...)\<close> at the head of the input: the number of bytes
  it consumes. The four alternatives are tried in the order of the pattern; they start
  with different bytes, so at most one of them applies.
\<close>

definition match_group :: "byte list \<Rightarrow> nat option" where
  "match_group bs =
     (case bs of
        [] \<Rightarrow> None
      | c # cs \<Rightarrow>
          if is_text_byte c then Some 1
          else if 0xC2 \<le> c \<and> c \<le> 0xDF \<and> 1 \<le> length cs \<and> list_all is_cont (take 1 cs) then Some 2
          else if 0xE0 \<le> c \<and> c \<le> 0xEF \<and> 2 \<le> length cs \<and> list_all is_cont (take 2 cs) then Some 3
          else if 0xF0 \<le> c \<and> c \<le> 0xF4 \<and> 3 \<le> length cs \<and> list_all is_cont (take 3 cs) then Some 4
          else None)"

text \<open>
  The greedy repetition of the group: how many passes it makes and how many bytes they
  consume.
\<close>

function match_repeat :: "byte list \<Rightarrow> nat \<times> nat" where
  "match_repeat bs =
     (case match_group bs of
        None \<Rightarrow> (0, 0)
      | Some k \<Rightarrow> (case match_repeat (drop k bs) of (c, l) \<Rightarrow> (Suc c, k + l)))"
  by pat_completeness auto
termination
proof (relation "measure length")
  show "wf (measure length)" by simp
next
  fix bs :: "byte list" and k
  assume "match_group bs = Some k"
  then have "0 < k \<and> bs \<noteq> []"
    by (cases bs) (auto simp: match_group_def split: if_splits)
  then show "(drop k bs, bs) \<in> measure length" by simp
qed

definition MAXREPEAT :: int where
  "MAXREPEAT = 4294967295"

text \<open>
  A match of the whole pattern at the head of the input: its length in bytes.

  For \<open>0 \<le> n\<close> the pattern is \<open>(?:...){n,}\x00\<close>. The repetition is greedy and the
  engine backtracks to fewer passes, but after fewer passes the next byte starts a further
  pass of the group and so is not NUL: the pattern matches exactly when the greedy run has
  at least \<open>n\<close> passes and a NUL follows it.

  For \<open>n < 0\<close> the text \<open>{-5,}\<close> is no quantifier, and the pattern parser of \<open>re\<close> reads
  it as literal characters: the pattern is one pass of the group, these characters and NUL.
\<close>

definition ascii :: "string \<Rightarrow> byte list" where
  "ascii s = map of_char s"

definition match_at :: "int \<Rightarrow> byte list \<Rightarrow> nat option" where
  "match_at n bs =
     (if 0 \<le> n then
        (case match_repeat bs of
           (c, l) \<Rightarrow> if nat n \<le> c \<and> take 1 (drop l bs) = [0] then Some (l + 1) else None)
      else
        (case match_group bs of
           None \<Rightarrow> None
         | Some k \<Rightarrow>
             (let lit = ascii (''{'' @ str n @ '',}'') @ [0]
              in if take (length lit) (drop k bs) = lit then Some (k + length lit) else None)))"

text \<open>
  \<open>re.finditer\<close>: the leftmost match from the current position, then the search goes on
  behind that match.
\<close>

function finditer :: "int \<Rightarrow> int \<Rightarrow> byte list \<Rightarrow> int list" where
  "finditer n pos bs =
     (case match_at n bs of
        Some len \<Rightarrow> pos # finditer n (pos + int len) (drop len bs)
      | None \<Rightarrow> (case bs of [] \<Rightarrow> [] | c # rest \<Rightarrow> finditer n (pos + 1) rest))"
  by pat_completeness auto
termination
proof (relation "measure (\<lambda>(n, pos, bs). length bs)")
  show "wf (measure (\<lambda>(n :: int, pos :: int, bs :: byte list). length bs))" by simp
next
  fix n pos :: int and bs :: "byte list" and len
  assume "match_at n bs = Some len"
  then have "0 < len \<and> bs \<noteq> []"
    by (cases bs)
      (auto simp: match_at_def match_group_def Let_def split: if_splits prod.splits option.splits)
  then show "((n, pos + int len, drop len bs), (n, pos, bs)) \<in> measure (\<lambda>(n, pos, bs). length bs)"
    by simp
next
  fix n pos :: int and bs :: "byte list" and c rest
  assume "bs = c # rest"
  then show "((n, pos + 1, rest), (n, pos, bs)) \<in> measure (\<lambda>(n, pos, bs). length bs)"
    by simp
qed

definition get_string_addresses :: "byte list \<Rightarrow> int \<Rightarrow> error + int set" where
  "get_string_addresses b n =
     (if MAXREPEAT \<le> n then Inl OverflowError else Inr (set (finditer n 0 b)))"

section \<open>\<open>get_pointed_addresses\<close>\<close>

datatype byteorder = Little | Big

fun from_bytes_little :: "byte list \<Rightarrow> int" where
  "from_bytes_little [] = 0"
| "from_bytes_little (c # cs) = uint c + 256 * from_bytes_little cs"

definition from_bytes :: "byteorder \<Rightarrow> byte list \<Rightarrow> int" where
  "from_bytes byteorder bs =
     (case byteorder of Little \<Rightarrow> from_bytes_little bs | Big \<Rightarrow> from_bytes_little (rev bs))"

text \<open>\<open>range(start, stop, step)\<close> and the slice \<open>b[i:j]\<close>, negative arguments included.\<close>

definition py_range :: "int \<Rightarrow> int \<Rightarrow> int \<Rightarrow> error + int list" where
  "py_range start stop step =
     (if step = 0 then Inl ValueError
      else if 0 < step then
        Inr (map (\<lambda>k. start + int k * step) [0..<nat ((stop - start + step - 1) div step)])
      else
        Inr (map (\<lambda>k. start + int k * step) [0..<nat ((start - stop - step - 1) div (- step))]))"

definition slice_index :: "nat \<Rightarrow> int \<Rightarrow> nat" where
  "slice_index len i = (if i < 0 then nat (max 0 (i + int len)) else min len (nat i))"

definition py_slice :: "'a list \<Rightarrow> int \<Rightarrow> int \<Rightarrow> 'a list" where
  "py_slice xs i j = drop (slice_index (length xs) i) (take (slice_index (length xs) j) xs)"

text \<open>The body of the loop, over the offsets in the order they are scanned.\<close>

definition scan_pointers :: "byte list \<Rightarrow> byteorder \<Rightarrow> int \<Rightarrow> int list \<Rightarrow> int set" where
  "scan_pointers b endian len offs =
     fold (\<lambda>i pointed_addresses. insert (from_bytes endian (py_slice b i (i + len))) pointed_addresses)
       offs {}"

definition get_pointed_addresses :: "byte list \<Rightarrow> byteorder \<Rightarrow> int \<Rightarrow> int \<Rightarrow> error + int set" where
  "get_pointed_addresses b endian len align =
     bind_err (py_range 0 (int (length b) - len + 1) align)
       (\<lambda>offs. Inr (scan_pointers b endian len offs))"

section \<open>\<open>find_coprime_numbers\<close>\<close>

text \<open>
  The \<open>while\<close> loop need not end (a negative running product never exceeds a bound
  \<open>0 \<le> m\<close>), so it is a partial function: \<open>None\<close> is a loop that runs forever.
\<close>

partial_function (option) coprime_loop :: "int \<Rightarrow> int \<Rightarrow> int list \<Rightarrow> int \<Rightarrow> int list option" where
  "coprime_loop m i coprimes product =
     (if product \<le> m then
        (if gcd i product = 1 then coprime_loop m (i + 2) (coprimes @ [i]) (product * i)
         else coprime_loop m (i + 2) coprimes product)
      else Some coprimes)"

declare coprime_loop.simps [code]

definition find_coprime_numbers :: "int \<Rightarrow> int \<Rightarrow> int list option" where
  "find_coprime_numbers n m = (let i = n + 1 + n mod 2 in coprime_loop m (i + 2) [i] i)"

section \<open>\<open>find_max_overlap\<close>\<close>

text \<open>
  \<open>np.zeros(p)\<close>, for \<open>0 \<le> p\<close>. The array is taken to fit in memory, whatever its
  size: numpy raises for a size that the machine cannot allocate.
\<close>

definition np_zeros :: "int \<Rightarrow> real list" where
  "np_zeros p = replicate (nat p) 0"

text \<open>
  \<open>a[i] += 1\<close>, a negative index counting from the end of the array. The two histogram passes call it
  with \<open>x % p\<close> and \<open>-(x % p)\<close> on arrays of length \<open>p\<close>, so the index is in range.
\<close>

definition add_at :: "real list \<Rightarrow> int \<Rightarrow> real list" where
  "add_at a i = (let j = nat (if i < 0 then i + int (length a) else i) in a[j := a ! j + 1])"

text \<open>
  Modelled from the spec: \<open>np.fft.fft\<close> and \<open>np.fft.ifft\<close> are numpy's and not in the
  source. The spec (4.4, 9) gives what \<open>ifft(fft(a) * fft(b)).real\<close> computes: the circular
  convolution of the two arrays, for which the direct sum is an accepted substitute. The
  model is that sum over the reals, so the rounding of the floating-point transform is
  left out: where one index holds the maximum of the exact correlation, the program takes
  that index as the model does; where several indices share it, the rounding decides
  which of them the program takes, and the model says nothing reliable about that choice.
  The transform raises on an empty array.
\<close>

definition circular_convolution :: "real list \<Rightarrow> real list \<Rightarrow> error + real list" where
  "circular_convolution a b =
     (let p = length a in
      if p = 0 then Inl ValueError
      else Inr (map (\<lambda>j. \<Sum>i\<leftarrow>[0..<p]. a ! i * b ! ((j + p - i) mod p)) [0..<p]))"

text \<open>\<open>np.argmax\<close>: the first index of the maximum.\<close>

fun argmax_loop :: "nat \<Rightarrow> real \<Rightarrow> nat \<Rightarrow> real list \<Rightarrow> nat" where
  "argmax_loop best v i [] = best"
| "argmax_loop best v i (x # xs) =
     (if v < x then argmax_loop i x (Suc i) xs else argmax_loop best v (Suc i) xs)"

definition np_argmax :: "real list \<Rightarrow> error + nat" where
  "np_argmax xs = (case xs of [] \<Rightarrow> Inl ValueError | x # rest \<Rightarrow> Inr (argmax_loop 0 x 1 rest))"

text \<open>
  One pass of the loop over the moduli. \<open>A\<close> and \<open>B\<close> are the two sets in the order in
  which they are iterated. \<open>np.zeros\<close> raises on a negative size, \<open>x % p\<close> on \<open>p = 0\<close>.
\<close>

definition correlate :: "int list \<Rightarrow> int list \<Rightarrow> int \<Rightarrow> error + int" where
  "correlate A B p =
     (if p < 0 then Inl ValueError
      else if p = 0 \<and> (A \<noteq> [] \<or> B \<noteq> []) then Inl ZeroDivisionError
      else
        (let a = fold (\<lambda>x a. add_at a (x mod p)) A (np_zeros p);
             b = fold (\<lambda>x b. add_at b (- (x mod p))) B (np_zeros p)
         in bind_err (circular_convolution a b) (\<lambda>corr.
            bind_err (np_argmax corr) (\<lambda>offset. Inr (int offset)))))"

text \<open>The loop: the offsets recorded, and the exception that ended it, if one did.\<close>

fun overlap_loop :: "int list \<Rightarrow> int list \<Rightarrow> int list \<Rightarrow> int list \<times> error option" where
  "overlap_loop A B [] = ([], None)"
| "overlap_loop A B (p # ps) =
     (case correlate A B p of
        Inl e \<Rightarrow> ([], Some e)
      | Inr offset \<Rightarrow> (case overlap_loop A B ps of (offsets, r) \<Rightarrow> (offset # offsets, r)))"

definition find_max_overlap_iter :: "int list \<Rightarrow> int list \<Rightarrow> int list \<Rightarrow> error + int" where
  "find_max_overlap_iter A B modulos =
     (case overlap_loop A B modulos of
        (offsets, Some e) \<Rightarrow> Inl e
      | (offsets, None) \<Rightarrow> crt modulos offsets)"

text \<open>What the function writes to the standard error stream: the progress counter.\<close>

definition progress :: "int list \<Rightarrow> int list \<Rightarrow> int list \<Rightarrow> string" where
  "progress A B modulos =
     (case overlap_loop A B modulos of
        (offsets, r) \<Rightarrow>
          ''0/'' @ str (int (length modulos))
          @ concat (map (\<lambda>k. [CHR 0x0D] @ str (int k) @ ''/'' @ str (int (length modulos)))
              [1..<Suc (length offsets)])
          @ (case r of None \<Rightarrow> [CHR 0x0A] | Some e \<Rightarrow> []))"

text \<open>
  On sets. The order in which Python iterates a set is not fixed by the language; the
  model iterates in increasing order.
\<close>

definition find_max_overlap :: "int set \<Rightarrow> int set \<Rightarrow> int list \<Rightarrow> error + int" where
  "find_max_overlap A B modulos =
     find_max_overlap_iter (sorted_list_of_set A) (sorted_list_of_set B) modulos"

section \<open>Python's floats\<close>

text \<open>
  A float is an IEEE binary64 number: \<open>Finite m e\<close> is the value \<open>m * 2 ^ e\<close>, and there
  are the two infinities and NaN. A float has \<open>\<bar>m\<bar> < 2 ^ 53\<close> and an exponent from
  \<open>- 1074\<close> to 971; the operations below are defined for every \<open>m\<close> and \<open>e\<close> and round
  their exact result to such a number. The sign of a zero is left out: nothing in the
  program depends on it.
\<close>

datatype pyfloat = Finite int int | PosInf | NegInf | NaN

text \<open>The number of binary digits of a positive integer.\<close>

function bit_length :: "int \<Rightarrow> int" where
  "bit_length n = (if n \<le> 0 then 0 else 1 + bit_length (n div 2))"
  by pat_completeness auto
termination
  by (relation "measure nat") auto

text \<open>The integer nearest to \<open>num / den\<close> for \<open>0 < den\<close>, a tie going to the even one.\<close>

definition round_half_even :: "int \<Rightarrow> int \<Rightarrow> int" where
  "round_half_even num den =
     (let q = num div den; r = num mod den in
      if 2 * r < den then q
      else if den < 2 * r then q + 1
      else if even q then q else q + 1)"

text \<open>\<open>floor (log2 (|num| / den))\<close> for \<open>num \<noteq> 0\<close> and \<open>0 < den\<close>.\<close>

definition floor_log2 :: "int \<Rightarrow> int \<Rightarrow> int" where
  "floor_log2 num den =
     (let d = bit_length \<bar>num\<bar> - bit_length den in
      if (if 0 \<le> d then den * 2 ^ nat d \<le> \<bar>num\<bar> else den \<le> \<bar>num\<bar> * 2 ^ nat (- d))
      then d else d - 1)"

text \<open>
  The float nearest to the rational \<open>num / den\<close> (\<open>0 < den\<close>), as every arithmetic
  operation rounds its exact result: 53 significant bits, a last place no finer than
  \<open>2 ^ - 1074\<close>, ties to even, and an infinity from \<open>2 ^ 1024\<close> on.
\<close>

definition round_double :: "int \<Rightarrow> int \<Rightarrow> pyfloat" where
  "round_double num den =
     (if num = 0 then Finite 0 0
      else
        (let t = max (floor_log2 num den - 52) (- 1074);
             m = (if 0 \<le> t then round_half_even num (den * 2 ^ nat t)
                  else round_half_even (num * 2 ^ nat (- t)) den)
         in if 971 < t \<or> (t = 971 \<and> 2 ^ 53 \<le> \<bar>m\<bar>)
            then (if 0 < num then PosInf else NegInf)
            else Finite m t))"

text \<open>\<open>float(n)\<close> of an integer, which raises when the integer is too large.\<close>

definition float_of_int :: "int \<Rightarrow> error + pyfloat" where
  "float_of_int n =
     (case round_double n 1 of Finite m e \<Rightarrow> Inr (Finite m e) | _ \<Rightarrow> Inl OverflowError)"

definition sign_of :: "pyfloat \<Rightarrow> int" where
  "sign_of x = (case x of Finite m e \<Rightarrow> sgn m | PosInf \<Rightarrow> 1 | NegInf \<Rightarrow> - 1 | NaN \<Rightarrow> 0)"

definition float_mul :: "pyfloat \<Rightarrow> pyfloat \<Rightarrow> pyfloat" where
  "float_mul x y =
     (if x = NaN \<or> y = NaN then NaN
      else
        (case (x, y) of
           (Finite m1 e1, Finite m2 e2) \<Rightarrow>
             (if 0 \<le> e1 + e2 then round_double (m1 * m2 * 2 ^ nat (e1 + e2)) 1
              else round_double (m1 * m2) (2 ^ nat (- (e1 + e2))))
         | _ \<Rightarrow>
             (let s = sign_of x * sign_of y in
              if s = 0 then NaN else if 0 < s then PosInf else NegInf)))"

text \<open>The sum and the quotient of two finite floats; a zero divisor raises.\<close>

definition float_add :: "int \<times> int \<Rightarrow> int \<times> int \<Rightarrow> pyfloat" where
  "float_add x y =
     (case (x, y) of
        ((m1, e1), (m2, e2)) \<Rightarrow>
          (let e = min e1 e2; num = m1 * 2 ^ nat (e1 - e) + m2 * 2 ^ nat (e2 - e) in
           if 0 \<le> e then round_double (num * 2 ^ nat e) 1 else round_double num (2 ^ nat (- e))))"

definition float_div :: "int \<times> int \<Rightarrow> int \<times> int \<Rightarrow> error + pyfloat" where
  "float_div x y =
     (case (x, y) of
        ((m1, e1), (m2, e2)) \<Rightarrow>
          if m2 = 0 then Inl ZeroDivisionError
          else
            (let num = sgn m2 * m1; den = \<bar>m2\<bar> in
             Inr (if 0 \<le> e1 - e2 then round_double (num * 2 ^ nat (e1 - e2)) den
                  else round_double num (den * 2 ^ nat (e2 - e1)))))"

text \<open>\<open>x < y\<close> on floats, and \<open>min(x, y)\<close>, which is \<open>x\<close> unless \<open>y < x\<close>.\<close>

definition float_less :: "pyfloat \<Rightarrow> pyfloat \<Rightarrow> bool" where
  "float_less x y =
     (case (x, y) of
        (Finite m1 e1, Finite m2 e2) \<Rightarrow>
          (let e = min e1 e2 in m1 * 2 ^ nat (e1 - e) < m2 * 2 ^ nat (e2 - e))
      | (Finite m1 e1, PosInf) \<Rightarrow> True
      | (NegInf, Finite m2 e2) \<Rightarrow> True
      | (NegInf, PosInf) \<Rightarrow> True
      | _ \<Rightarrow> False)"

definition float_min :: "pyfloat \<Rightarrow> pyfloat \<Rightarrow> pyfloat" where
  "float_min x y = (if float_less y x then y else x)"

text \<open>\<open>int(x)\<close> of a float: truncation towards zero; infinities and NaN raise.\<close>

definition int_of_float :: "pyfloat \<Rightarrow> error + int" where
  "int_of_float x =
     (case x of
        Finite m e \<Rightarrow>
          Inr (if 0 \<le> e then m * 2 ^ nat e
               else if 0 \<le> m then m div 2 ^ nat (- e)
               else - ((- m) div 2 ^ nat (- e)))
      | PosInf \<Rightarrow> Inl OverflowError
      | NegInf \<Rightarrow> Inl OverflowError
      | NaN \<Rightarrow> Inl ValueError)"

text \<open>\<open>k < x\<close> for an integer \<open>k\<close> and a float \<open>x\<close>, which Python compares exactly.\<close>

definition int_less_float :: "int \<Rightarrow> pyfloat \<Rightarrow> bool" where
  "int_less_float k x =
     (case x of
        Finite m e \<Rightarrow> (if 0 \<le> e then k < m * 2 ^ nat e else k * 2 ^ nat (- e) < m)
      | PosInf \<Rightarrow> True
      | NegInf \<Rightarrow> False
      | NaN \<Rightarrow> False)"

text \<open>
  \<open>2**e\<close>: an integer for \<open>0 \<le> e\<close>. For a negative \<open>e\<close> both operands are made
  floats, which raises when \<open>e\<close> is too large for one, and the result is the float
  \<open>2 ^ e\<close>: exact down to the smallest subnormal \<open>2 ^ - 1074\<close>, and 0.0 below it.
\<close>

definition pow2 :: "int \<Rightarrow> error + (int + pyfloat)" where
  "pow2 e =
     (if 0 \<le> e then Inr (Inl (2 ^ nat e))
      else bind_err (float_of_int e) (\<lambda>y.
             Inr (Inr (if e < - 1074 then Finite 0 0 else Finite 1 e))))"

section \<open>The main program\<close>

text \<open>
  The arguments after parsing, with the defaults of \<open>-n\<close>, \<open>-l\<close> and \<open>-e\<close> filled in.
  The slack factor is the float that \<open>argparse\<close> made of the text of \<open>-f\<close>.
\<close>

record args =
  arg_n :: int
  arg_l :: int
  arg_e :: string
  arg_a :: "int option"
  arg_f :: "pyfloat option"

definition default_args :: args where
  "default_args = \<lparr>arg_n = 5, arg_l = 8, arg_e = ''little'', arg_a = None, arg_f = None\<rparr>"

datatype outcome = Printed string | Raised error | Hangs

text \<open>
  What is written to the standard error stream, in order: the texts that the program
  prints, and the usage and error message of \<open>argparse\<close> for a refused value, whose
  wording is the library's. The traceback that the interpreter writes for an uncaught
  exception belongs to the outcome \<open>Raised\<close>.
\<close>

datatype written = Text string | Usage string

record run =
  stderr :: "written list"
  outcome :: outcome

text \<open>The option \<open>-e\<close> has \<open>choices\<close>: the parser exits on any other value.\<close>

definition parse_endian :: "string \<Rightarrow> error + byteorder" where
  "parse_endian e =
     (if e = ''little'' then Inr Little else if e = ''big'' then Inr Big else Inl UsageError)"

text \<open>\<open>min(1.0, 16.0 / args.a)\<close> when no slack factor is given.\<close>

definition slack_factor :: "pyfloat option \<Rightarrow> int \<Rightarrow> error + pyfloat" where
  "slack_factor f a =
     (case f of
        Some f \<Rightarrow> Inr f
      | None \<Rightarrow>
          bind_err (float_of_int a) (\<lambda>a'.
            (case a' of
               Finite m e \<Rightarrow>
                 bind_err (float_div (16, 0) (m, e)) (\<lambda>q. Inr (float_min (Finite 1 0) q))
             | _ \<Rightarrow> Inl OverflowError)))"

text \<open>The two bounds of the moduli: \<open>int(len(b) * args.f)\<close> and \<open>2**(args.l*8) + len(b)\<close>.\<close>

definition lower_bound :: "byte list \<Rightarrow> pyfloat \<Rightarrow> error + int" where
  "lower_bound b f =
     bind_err (float_of_int (int (length b))) (\<lambda>len. int_of_float (float_mul len f))"

text \<open>
  The upper bound is a float when \<open>l\<close> is negative. The loop of \<open>find_coprime_numbers\<close>
  only compares it with the integer product, and it is not negative, so its integer part
  is passed.
\<close>

definition upper_bound :: "int \<Rightarrow> byte list \<Rightarrow> error + int" where
  "upper_bound l b =
     bind_err (pow2 (l * 8)) (\<lambda>bound.
       (case bound of
          Inl k \<Rightarrow> Inr (k + int (length b))
        | Inr x \<Rightarrow>
            bind_err (float_of_int (int (length b))) (\<lambda>len.
              (case (x, len) of
                 (Finite m1 e1, Finite m2 e2) \<Rightarrow> int_of_float (float_add (m1, e1) (m2, e2))
               | _ \<Rightarrow> Inl OverflowError))))"

text \<open>The last \<open>if\<close> of the program, which computes \<open>2**(args.l*8)\<close> once more.\<close>

definition report :: "int list \<Rightarrow> int \<Rightarrow> byte list \<Rightarrow> int \<Rightarrow> error + string" where
  "report modulos offset b l =
     (let negative_offset = prod_list modulos - offset in
      if negative_offset < int (length b) then Inr (''Offset: -'' @ hex negative_offset)
      else
        bind_err (pow2 (l * 8)) (\<lambda>bound.
          if (case bound of Inl k \<Rightarrow> offset < k | Inr x \<Rightarrow> int_less_float offset x)
          then Inr (''Offset: '' @ hex offset)
          else Inr ''Offset: not found''))"

text \<open>
  The program on the parsed arguments and the bytes of the file.

  \<open>iter_A\<close> and \<open>iter_B\<close> give the order in which \<open>find_max_overlap\<close> iterates the set
  of pointers and the set of strings, which Python does not fix.
\<close>

definition main_iter ::
  "(int set \<Rightarrow> int list) \<Rightarrow> (int set \<Rightarrow> int list) \<Rightarrow> args \<Rightarrow> byte list \<Rightarrow> run" where
  "main_iter iter_A iter_B args b =
     (case parse_endian (arg_e args) of
        Inl e \<Rightarrow> \<lparr>stderr = [Usage (arg_e args)], outcome = Raised e\<rparr>
      | Inr endian \<Rightarrow>
     (let a = (case arg_a args of None \<Rightarrow> arg_l args | Some a \<Rightarrow> a) in
      case slack_factor (arg_f args) a of
        Inl e \<Rightarrow> \<lparr>stderr = [], outcome = Raised e\<rparr>
      | Inr f \<Rightarrow>
     (case get_string_addresses b (arg_n args) of
        Inl e \<Rightarrow> \<lparr>stderr = [], outcome = Raised e\<rparr>
      | Inr strings \<Rightarrow>
     (let found = Text (''Found '' @ str (int (card strings)) @ '' strings'' @ [CHR 0x0A]) in
      case get_pointed_addresses b endian (arg_l args) a of
        Inl e \<Rightarrow> \<lparr>stderr = [found], outcome = Raised e\<rparr>
      | Inr pointers \<Rightarrow>
     (case lower_bound b f of
        Inl e \<Rightarrow> \<lparr>stderr = [found], outcome = Raised e\<rparr>
      | Inr n \<Rightarrow>
     (case upper_bound (arg_l args) b of
        Inl e \<Rightarrow> \<lparr>stderr = [found], outcome = Raised e\<rparr>
      | Inr m \<Rightarrow>
     (case find_coprime_numbers n m of
        None \<Rightarrow> \<lparr>stderr = [found], outcome = Hangs\<rparr>
      | Some modulos \<Rightarrow>
     (let log = [found, Text (progress (iter_A pointers) (iter_B strings) modulos)] in
      case find_max_overlap_iter (iter_A pointers) (iter_B strings) modulos of
        Inl e \<Rightarrow> \<lparr>stderr = log, outcome = Raised e\<rparr>
      | Inr offset \<Rightarrow>
          (case report modulos offset b (arg_l args) of
             Inl e \<Rightarrow> \<lparr>stderr = log, outcome = Raised e\<rparr>
           | Inr line \<Rightarrow> \<lparr>stderr = log, outcome = Printed line\<rparr>)))))))))"

text \<open>The program with both sets iterated in increasing order.\<close>

definition main :: "args \<Rightarrow> byte list \<Rightarrow> run" where
  "main args b = main_iter sorted_list_of_set sorted_list_of_set args b"

section \<open>What the correlation counts\<close>

text \<open>
  The number of pairs of a member \<open>x\<close> of \<open>A\<close> and a member \<open>y\<close> of \<open>B\<close> with
  \<open>x - y\<close> congruent to \<open>j\<close> modulo \<open>p\<close>: the alignment strength of the offset \<open>j\<close>.
\<close>

definition overlap_count :: "int list \<Rightarrow> int list \<Rightarrow> int \<Rightarrow> int \<Rightarrow> nat" where
  "overlap_count A B p j = (\<Sum>x\<leftarrow>A. length (filter (\<lambda>y. (x - y) mod p = j) B))"

section \<open>Loop invariants\<close>

text \<open>
  What holds of \<open>i\<close>, \<open>coprimes\<close> and \<open>product\<close> at the head of the loop of
  \<open>find_coprime_numbers n m\<close>, and of its result.
\<close>

definition loop_inv :: "int \<Rightarrow> int \<Rightarrow> int \<Rightarrow> int list \<Rightarrow> int \<Rightarrow> bool" where
  "loop_inv n m i cs p \<longleftrightarrow>
     cs \<noteq> [] \<and> p = prod_list cs \<and> (\<forall>x\<in>set cs. odd x \<and> n < x \<and> x < i) \<and> odd i \<and>
     sorted_wrt (<) cs \<and> pairwise_coprime cs \<and> (1 \<le> m \<or> 2 \<le> length cs \<longrightarrow> prod_list (butlast cs) \<le> m)"

definition loop_post :: "int \<Rightarrow> int \<Rightarrow> int list \<Rightarrow> bool" where
  "loop_post n m ys \<longleftrightarrow>
     ys \<noteq> [] \<and> (\<forall>x\<in>set ys. odd x \<and> n < x) \<and> sorted_wrt (<) ys \<and> pairwise_coprime ys \<and>
     m < prod_list ys \<and> (1 \<le> m \<or> 2 \<le> length ys \<longrightarrow> prod_list (butlast ys) \<le> m)"

section \<open>The modular inverse\<close>

declare invmod_loop.simps [simp del]

lemma invmod_loop_inv:
  assumes "0 \<le> a" "0 \<le> n" "n0 dvd (b * a0 - a)" "n0 dvd (c * a0 - n)"
    and "invmod_loop a n b c = (g, r)"
  shows "g = gcd a n \<and> n0 dvd (r * a0 - g)"
  using assms
proof (induction a n b c rule: invmod_loop.induct)
  case (1 a n b c)
  show ?case
  proof (cases "n = 0")
    case True
    with "1.prems" show ?thesis by (simp add: invmod_loop.simps [of a 0])
  next
    case False
    with "1.prems" have npos: "0 < n" by simp
    have step: "invmod_loop n (a mod n) c (b - (a div n) * c) = (g, r)"
      using "1.prems"(5) False by (subst (asm) invmod_loop.simps) simp
    have d: "n0 dvd ((b - (a div n) * c) * a0 - a mod n)"
    proof -
      have "(b - (a div n) * c) * a0 - a mod n = (b * a0 - a) - (a div n) * (c * a0 - n)"
        by (simp add: algebra_simps minus_div_mult_eq_mod [symmetric])
      then show ?thesis using "1.prems"(3,4) by simp
    qed
    have "g = gcd n (a mod n) \<and> n0 dvd (r * a0 - g)"
    proof (rule "1.IH"[OF False _ _ "1.prems"(4) d step])
      show "0 \<le> n" using npos by simp
      show "0 \<le> a mod n" using npos by simp
    qed
    moreover have "gcd a n = gcd n (a mod n)" by (rule gcd_red_int)
    ultimately show ?thesis by metis
  qed
qed

lemma long_invmod_coprime:
  assumes "0 \<le> a" "0 < n" "coprime a n"
  shows "\<exists>b. long_invmod a n = Some b \<and> (a * b) mod n = 1 mod n"
proof -
  obtain g r where gr: "invmod_loop a n 1 0 = (g, r)" by (cases "invmod_loop a n 1 0")
  have "g = gcd a n \<and> n dvd (r * a - g)"
    by (rule invmod_loop_inv[of a n n 1 a 0 g r]) (use assms gr in simp_all)
  moreover have "gcd a n = 1" using assms(3) by simp
  ultimately have g1: "g = 1" and dv: "n dvd (r * a - 1)" by metis+
  from dv have "(r * a) mod n = 1 mod n"
    by (metis mod_eq_dvd_iff)
  then show ?thesis using gr g1 by (simp add: long_invmod_def mult.commute)
qed

lemma pow_neg1_coprime:
  assumes "0 \<le> a" "0 < p" "coprime a p"
  shows "\<exists>r. pow_neg1 a p = Inr r \<and> (a * r) mod p = 1 mod p"
proof (cases "p = 1")
  case True
  then show ?thesis by (simp add: pow_neg1_def)
next
  case False
  obtain b where b: "long_invmod a p = Some b" "(a * b) mod p = 1 mod p"
    using long_invmod_coprime[OF assms] by blast
  have "(a * (b mod p)) mod p = 1 mod p"
    using b(2) by (simp add: mod_mult_right_eq)
  then show ?thesis using assms False b(1) by (simp add: pow_neg1_def)
qed


section \<open>The Chinese remainder step is correct\<close>

lemma pairwise_coprime_nth:
  assumes "pairwise_coprime ms" "i < length ms" "j < length ms" "i \<noteq> j"
  shows "coprime (ms ! i) (ms ! j)"
proof -
  have *: "\<And>a b. a < b \<Longrightarrow> b < length ms \<Longrightarrow> gcd (ms ! a) (ms ! b) = 1"
    using assms(1) by (simp add: pairwise_coprime_def sorted_wrt_iff_nth_less)
  show ?thesis
  proof (cases "i < j")
    case True
    then show ?thesis using *[of i j] assms by (simp add: coprime_iff_gcd_eq_1)
  next
    case False
    then have "j < i" using assms(4) by simp
    then show ?thesis using *[of j i] assms by (simp add: coprime_iff_gcd_eq_1 gcd.commute)
  qed
qed

lemma others_set:
  assumes "x \<in> set (take i ms @ drop (Suc i) ms)"
  shows "\<exists>j<length ms. j \<noteq> i \<and> x = ms ! j"
proof -
  from assms consider "x \<in> set (take i ms)" | "x \<in> set (drop (Suc i) ms)" by auto
  then show ?thesis
  proof cases
    case 1
    then obtain k where "k < length (take i ms)" "x = take i ms ! k"
      by (metis in_set_conv_nth)
    then show ?thesis by (intro exI[of _ k]) auto
  next
    case 2
    then obtain k where k: "k < length (drop (Suc i) ms)" "x = drop (Suc i) ms ! k"
      by (metis in_set_conv_nth)
    then show ?thesis by (intro exI[of _ "Suc i + k"]) auto
  qed
qed

lemma nth_in_others:
  assumes "j < length ms" "j \<noteq> i"
  shows "ms ! j \<in> set (take i ms @ drop (Suc i) ms)"
proof (cases "j < i")
  case True
  then have "ms ! j = take i ms ! j" "j < length (take i ms)" using assms by auto
  then show ?thesis by (metis UnI1 nth_mem set_append)
next
  case False
  then have ji: "Suc i \<le> j" using assms by simp
  then have "ms ! j = drop (Suc i) ms ! (j - Suc i)" "j - Suc i < length (drop (Suc i) ms)"
    using assms by auto
  then show ?thesis by (metis UnI2 nth_mem set_append)
qed

lemma prod_list_div_nth:
  fixes ms :: "int list"
  assumes "i < length ms" "ms ! i \<noteq> 0"
  shows "prod_list ms div ms ! i = prod_list (take i ms @ drop (Suc i) ms)"
proof -
  have "ms = take i ms @ ms ! i # drop (Suc i) ms"
    using assms(1) by (rule id_take_nth_drop)
  then have "prod_list ms = prod_list (take i ms) * (ms ! i * prod_list (drop (Suc i) ms))"
    by (metis prod_list.Cons prod_list.append)
  then have "prod_list ms = prod_list (take i ms @ drop (Suc i) ms) * ms ! i"
    by (simp add: mult.assoc mult.commute)
  then show ?thesis using assms(2) by simp
qed

lemma dvd_prod_list_member:
  fixes xs :: "int list"
  shows "x \<in> set xs \<Longrightarrow> x dvd prod_list xs"
  by (induction xs) auto

lemma others_coprime:
  assumes "pairwise_coprime ms" "i < length ms"
  shows "coprime (prod_list (take i ms @ drop (Suc i) ms)) (ms ! i)"
proof (rule prod_list_coprime_left)
  fix x assume "x \<in> set (take i ms @ drop (Suc i) ms)"
  then have "\<exists>j<length ms. j \<noteq> i \<and> x = ms ! j" by (rule others_set)
  then obtain j where j: "j < length ms" "j \<noteq> i" "x = ms ! j" by auto
  have "coprime (ms ! j) (ms ! i)"
    by (rule pairwise_coprime_nth[OF assms(1) j(1) assms(2) j(2)])
  then show "coprime x (ms ! i)" using j(3) by simp
qed

lemma prod_list_pos:
  fixes xs :: "int list"
  shows "\<forall>x\<in>set xs. 0 < x \<Longrightarrow> 0 < prod_list xs"
  by (induction xs) auto

lemma sum_list_mod_single:
  fixes ts :: "int list"
  assumes "i < length ts" "\<forall>j<length ts. j \<noteq> i \<longrightarrow> p dvd ts ! j"
  shows "sum_list ts mod p = ts ! i mod p"
  using assms
proof (induction ts arbitrary: i)
  case Nil
  then show ?case by simp
next
  case (Cons t ts)
  show ?case
  proof (cases i)
    case 0
    have "\<forall>x\<in>set ts. p dvd x"
    proof
      fix x assume "x \<in> set ts"
      then obtain k where "k < length ts" "x = ts ! k" by (metis in_set_conv_nth)
      then show "p dvd x" using Cons.prems(2) 0 by (auto dest: spec[of _ "Suc k"])
    qed
    then have "p dvd sum_list ts" by (induction ts) auto
    then obtain q where "sum_list ts = p * q" by (auto simp: dvd_def)
    then show ?thesis using 0 by simp
  next
    case (Suc k)
    have "p dvd t" using Cons.prems(2) Suc by (auto dest: spec[of _ 0])
    moreover have "sum_list ts mod p = ts ! k mod p"
    proof (rule Cons.IH)
      show "k < length ts" using Cons.prems(1) Suc by simp
      show "\<forall>j<length ts. j \<noteq> k \<longrightarrow> p dvd ts ! j"
        using Cons.prems(2) Suc by (auto dest: spec[of _ "Suc j" for j])
    qed
    ultimately obtain q where "t = p * q" "sum_list ts mod p = ts ! k mod p"
      by (auto simp: dvd_def)
    then show ?thesis using Suc by (simp add: add.commute)
  qed
qed

lemma prod_list_dvd_of_coprime:
  fixes ms :: "int list"
  assumes "pairwise_coprime ms" "\<forall>p\<in>set ms. p dvd x"
  shows "prod_list ms dvd x"
  using assms
proof (induction ms)
  case Nil
  then show ?case by simp
next
  case (Cons m ms)
  have pc: "pairwise_coprime ms" using Cons.prems(1) by (simp add: pairwise_coprime_def)
  have "coprime m (prod_list ms)"
  proof (rule prod_list_coprime_right)
    fix y assume "y \<in> set ms"
    then show "coprime m y" using Cons.prems(1)
      by (simp add: pairwise_coprime_def coprime_iff_gcd_eq_1)
  qed
  moreover have "m dvd x" using Cons.prems(2) by simp
  moreover have "prod_list ms dvd x" using Cons.IH[OF pc] Cons.prems(2) by simp
  ultimately show ?case by (simp add: divides_mult)
qed

lemma crt_terms_ok:
  assumes "\<forall>po\<in>set pos. 0 < fst po \<and> 0 \<le> M div fst po \<and> coprime (M div fst po) (fst po)"
  shows "\<exists>ts. crt_terms M pos = Inr ts \<and> length ts = length pos \<and>
           (\<forall>i<length pos. \<exists>r. ts ! i = snd (pos ! i) * (M div fst (pos ! i)) * r \<and>
              (M div fst (pos ! i) * r) mod fst (pos ! i) = 1 mod fst (pos ! i))"
  using assms
proof (induction pos)
  case Nil
  then show ?case by simp
next
  case (Cons po pos)
  obtain p offset where po: "po = (p, offset)" by (cases po)
  have p: "0 < p" "0 \<le> M div p" "coprime (M div p) p" using Cons.prems po by auto
  obtain r where r: "pow_neg1 (M div p) p = Inr r" "(M div p * r) mod p = 1 mod p"
    using pow_neg1_coprime[OF p(2) p(1) p(3)] by blast
  have t: "crt_term M po = Inr (offset * (M div p) * r)"
    using p(1) r(1) by (simp add: crt_term_def po floordiv_def bind_err_def)
  obtain ts where ts: "crt_terms M pos = Inr ts" "length ts = length pos"
    "\<forall>i<length pos. \<exists>r. ts ! i = snd (pos ! i) * (M div fst (pos ! i)) * r \<and>
              (M div fst (pos ! i) * r) mod fst (pos ! i) = 1 mod fst (pos ! i)"
    using Cons.IH Cons.prems by auto
  have res: "crt_terms M (po # pos) = Inr (offset * (M div p) * r # ts)"
    using t ts(1) by (simp add: bind_err_def)
  have "\<forall>i<length (po # pos). \<exists>r'. (offset * (M div p) * r # ts) ! i =
           snd ((po # pos) ! i) * (M div fst ((po # pos) ! i)) * r' \<and>
           (M div fst ((po # pos) ! i) * r') mod fst ((po # pos) ! i) = 1 mod fst ((po # pos) ! i)"
  proof (intro allI impI)
    fix i assume i: "i < length (po # pos)"
    show "\<exists>r'. (offset * (M div p) * r # ts) ! i =
           snd ((po # pos) ! i) * (M div fst ((po # pos) ! i)) * r' \<and>
           (M div fst ((po # pos) ! i) * r') mod fst ((po # pos) ! i) = 1 mod fst ((po # pos) ! i)"
    proof (cases i)
      case 0
      then show ?thesis using r(2) po by auto
    next
      case (Suc j)
      then have "j < length pos" using i by simp
      then show ?thesis using ts(3) Suc by simp
    qed
  qed
  then show ?case using res ts(2) by simp
qed

lemma crt_solution:
  assumes pos: "\<forall>p\<in>set modulos. 0 < p"
    and pc: "pairwise_coprime modulos"
    and len: "length offsets = length modulos"
  shows "\<exists>k. crt modulos offsets = Inr k \<and> 0 \<le> k \<and> k < prod_list modulos \<and>
           (\<forall>i<length modulos. k mod modulos ! i = offsets ! i mod modulos ! i)"
proof -
  define M where "M = prod_list modulos"
  have Mpos: "0 < M" unfolding M_def using pos by (rule prod_list_pos)
  have nth_pos: "\<And>i. i < length modulos \<Longrightarrow> 0 < modulos ! i" using pos by simp
  have Mdiv: "\<And>i. i < length modulos \<Longrightarrow>
      M div modulos ! i = prod_list (take i modulos @ drop (Suc i) modulos)"
  proof -
    fix i assume i: "i < length modulos"
    have "modulos ! i \<noteq> 0" using nth_pos[OF i] by simp
    then show "M div modulos ! i = prod_list (take i modulos @ drop (Suc i) modulos)"
      unfolding M_def using i by (intro prod_list_div_nth)
  qed
  have Mdiv_pos: "\<And>i. i < length modulos \<Longrightarrow> 0 < M div modulos ! i"
  proof -
    fix i assume i: "i < length modulos"
    have "\<forall>x\<in>set (take i modulos @ drop (Suc i) modulos). 0 < x"
      using pos by (auto dest: in_set_takeD in_set_dropD)
    then show "0 < M div modulos ! i" using Mdiv[OF i] prod_list_pos by simp
  qed
  have Mdiv_cop: "\<And>i. i < length modulos \<Longrightarrow> coprime (M div modulos ! i) (modulos ! i)"
    using Mdiv others_coprime[OF pc] by simp
  have pre: "\<forall>po\<in>set (zip modulos offsets).
      0 < fst po \<and> 0 \<le> M div fst po \<and> coprime (M div fst po) (fst po)"
  proof
    fix po assume "po \<in> set (zip modulos offsets)"
    then obtain i where i: "i < length modulos" "fst po = modulos ! i"
      by (metis fst_conv in_set_zip)
    show "0 < fst po \<and> 0 \<le> M div fst po \<and> coprime (M div fst po) (fst po)"
      using i nth_pos[OF i(1)] Mdiv_pos[OF i(1)] Mdiv_cop[OF i(1)] by simp
  qed
  obtain ts where ts: "crt_terms M (zip modulos offsets) = Inr ts"
    "length ts = length (zip modulos offsets)"
    "\<forall>i<length (zip modulos offsets).
       \<exists>r. ts ! i = snd (zip modulos offsets ! i) * (M div fst (zip modulos offsets ! i)) * r \<and>
         (M div fst (zip modulos offsets ! i) * r) mod fst (zip modulos offsets ! i)
           = 1 mod fst (zip modulos offsets ! i)"
    using crt_terms_ok[OF pre] by blast
  have lts: "length ts = length modulos" using ts(2) len by simp
  have tms: "\<And>i. i < length modulos \<Longrightarrow>
      \<exists>r. ts ! i = offsets ! i * (M div modulos ! i) * r \<and>
        (M div modulos ! i * r) mod modulos ! i = 1 mod modulos ! i"
    using ts(3) len by simp
  define k where "k = sum_list ts mod M"
  have res: "crt modulos offsets = Inr k"
    using ts(1) Mpos by (simp add: crt_def M_def [symmetric] bind_err_def py_mod_def k_def)
  have cong: "k mod modulos ! i = offsets ! i mod modulos ! i" if i: "i < length modulos" for i
  proof -
    let ?p = "modulos ! i"
    have pM: "?p dvd M" unfolding M_def using i by (intro dvd_prod_list_member) simp
    have others: "\<forall>j<length ts. j \<noteq> i \<longrightarrow> ?p dvd ts ! j"
    proof (intro allI impI)
      fix j assume j: "j < length ts" "j \<noteq> i"
      then have jl: "j < length modulos" using lts by simp
      obtain r where r: "ts ! j = offsets ! j * (M div modulos ! j) * r"
        using tms[OF jl] by blast
      have "?p \<in> set (take j modulos @ drop (Suc j) modulos)"
        using i j(2) by (intro nth_in_others) auto
      then have "?p dvd prod_list (take j modulos @ drop (Suc j) modulos)"
        by (rule dvd_prod_list_member)
      then have "?p dvd M div modulos ! j"
        by (simp only: Mdiv[OF jl])
      then show "?p dvd ts ! j" using r by simp
    qed
    obtain r where r: "ts ! i = offsets ! i * (M div ?p) * r" "(M div ?p * r) mod ?p = 1 mod ?p"
      using tms[OF i] by blast
    have "k mod ?p = sum_list ts mod ?p" unfolding k_def using pM by (rule mod_mod_cancel)
    also have "\<dots> = ts ! i mod ?p" using i lts others by (intro sum_list_mod_single) auto
    also have "\<dots> = (offsets ! i * (M div ?p * r)) mod ?p" using r(1) by (simp add: mult.assoc)
    also have "\<dots> = (offsets ! i * ((M div ?p * r) mod ?p)) mod ?p" by (simp add: mod_mult_right_eq)
    also have "\<dots> = (offsets ! i * (1 mod ?p)) mod ?p" using r(2) by simp
    also have "\<dots> = offsets ! i mod ?p" by (simp add: mod_mult_right_eq)
    finally show ?thesis .
  qed
  have "0 \<le> k" "k < M" unfolding k_def using Mpos by simp_all
  then show ?thesis using res cong unfolding M_def by blast
qed

lemma crt_unique:
  assumes pos: "\<forall>p\<in>set modulos. 0 < p"
    and pc: "pairwise_coprime modulos"
    and k: "0 \<le> k" "k < prod_list modulos" and k': "0 \<le> k'" "k' < prod_list modulos"
    and cong: "\<forall>i<length modulos. k mod modulos ! i = k' mod modulos ! i"
  shows "k' = k"
proof -
  have "\<forall>p\<in>set modulos. p dvd (k - k')"
  proof
    fix p assume "p \<in> set modulos"
    then obtain i where "i < length modulos" "p = modulos ! i" by (metis in_set_conv_nth)
    then have "k mod p = k' mod p" using cong by simp
    then show "p dvd (k - k')" by (simp add: mod_eq_dvd_iff)
  qed
  then have "prod_list modulos dvd (k - k')" by (rule prod_list_dvd_of_coprime[OF pc])
  moreover have "\<bar>k - k'\<bar> < prod_list modulos" using k k' by linarith
  ultimately have "k - k' = 0" using zdvd_not_zless[of "\<bar>k - k'\<bar>" "prod_list modulos"]
    by (cases "k - k' = 0") auto
  then show ?thesis by simp
qed

text \<open>
  Claim C1. For pairwise coprime positive moduli and one local offset for each modulus,
  the Chinese remainder step of \<open>find_max_overlap\<close> returns a value \<open>k\<close> with
  \<open>0 \<le> k < M\<close>, \<open>M\<close> the product of the moduli, that is congruent to each local
  offset modulo its modulus, and \<open>k\<close> is the only such value in that range. The
  moduli 3, 5, 7 with the residues 2, 3, 2 give 23.
\<close>

theorem crt_reconstructs_unique_residue:
  assumes "\<forall>p\<in>set modulos. 0 < p"
    and "pairwise_coprime modulos"
    and "length offsets = length modulos"
  shows "\<exists>k. crt modulos offsets = Inr k \<and> 0 \<le> k \<and> k < prod_list modulos \<and>
           (\<forall>i<length modulos. k mod modulos ! i = offsets ! i mod modulos ! i) \<and>
           (\<forall>k'. 0 \<le> k' \<and> k' < prod_list modulos \<and>
                 (\<forall>i<length modulos. k' mod modulos ! i = offsets ! i mod modulos ! i)
                 \<longrightarrow> k' = k)"
proof -
  obtain k where k: "crt modulos offsets = Inr k" "0 \<le> k" "k < prod_list modulos"
    "\<forall>i<length modulos. k mod modulos ! i = offsets ! i mod modulos ! i"
    using crt_solution[OF assms] by blast
  have "k' = k" if "0 \<le> k' \<and> k' < prod_list modulos \<and>
      (\<forall>i<length modulos. k' mod modulos ! i = offsets ! i mod modulos ! i)" for k'
    using crt_unique[OF assms(1,2) k(2,3), of k'] that k(4) by simp
  then show ?thesis using k by blast
qed

theorem crt_reconstructs_unique_residue_witness:
  "list_all (\<lambda>p. 0 < p) [3, 5, 7 :: int] \<and> pairwise_coprime [3, 5, 7] \<and>
   length [2, 3, 2 :: int] = length [3, 5, 7 :: int] \<and>
   crt [3, 5, 7] [2, 3, 2] = Inr 23 \<and> (23 :: int) < prod_list [3, 5, 7] \<and>
   (23 :: int) mod 3 = 2 mod 3 \<and> (23 :: int) mod 5 = 3 mod 5 \<and> (23 :: int) mod 7 = 2 mod 7"
proof -
  have h1: "\<forall>p\<in>set [3, 5, 7 :: int]. 0 < p" by simp
  have h2: "pairwise_coprime [3, 5, 7]" by code_simp
  have h3: "length [2, 3, 2 :: int] = length [3, 5, 7 :: int]" by simp
  obtain k where k: "crt [3, 5, 7] [2, 3, 2] = Inr k"
    and u: "\<forall>k'. 0 \<le> k' \<and> k' < prod_list [3, 5, 7] \<and>
                 (\<forall>i<length [3, 5, 7 :: int]. k' mod [3, 5, 7] ! i = [2, 3, 2] ! i mod [3, 5, 7] ! i)
                 \<longrightarrow> k' = k"
    using crt_reconstructs_unique_residue[OF h1 h2 h3] by blast
  have "\<forall>i<length [3, 5, 7 :: int]. (23::int) mod [3, 5, 7] ! i = [2, 3, 2] ! i mod [3, 5, 7] ! i"
    by (simp add: less_Suc_eq nth_Cons')
  then have "23 = k" using u by simp
  then show ?thesis using k h1 h2 h3 by simp
qed
section \<open>The moduli of \<open>find_coprime_numbers\<close>\<close>

lemma gcd_prod_list_member:
  fixes i :: int
  assumes "gcd i (prod_list cs) = 1" "x \<in> set cs"
  shows "gcd x i = 1"
proof -
  have "coprime i (prod_list cs)" using assms(1) by (simp add: coprime_iff_gcd_eq_1)
  moreover have "x dvd prod_list cs" using assms(2) by (rule dvd_prod_list_member)
  ultimately have "coprime i x" by (rule coprime_divisors[OF dvd_refl, rotated])
  then show ?thesis by (simp add: coprime_iff_gcd_eq_1 gcd.commute)
qed

lemma loop_inv_accept:
  assumes "loop_inv n m i cs p" "p \<le> m" "gcd i p = 1"
  shows "loop_inv n m (i + 2) (cs @ [i]) (p * i)"
proof -
  from assms(1) have cs: "cs \<noteq> []" and p: "p = prod_list cs"
    and el: "\<forall>x\<in>set cs. odd x \<and> n < x \<and> x < i" and oi: "odd i"
    and so: "sorted_wrt (<) cs" and pc: "pairwise_coprime cs"
    by (simp_all add: loop_inv_def)
  obtain x where x: "x \<in> set cs" using cs by (cases cs) auto
  have ni: "n < i" using el x by force
  have ip: "gcd i (prod_list cs) = 1" using assms(3) p by simp
  have g: "\<forall>x\<in>set cs. gcd x i = 1"
  proof
    fix x assume "x \<in> set cs"
    with ip show "gcd x i = 1" by (rule gcd_prod_list_member)
  qed
  have 1: "sorted_wrt (<) (cs @ [i])" using so el by (simp add: sorted_wrt_append)
  have 2: "pairwise_coprime (cs @ [i])"
    unfolding pairwise_coprime_def sorted_wrt_append
    using pc g by (simp add: pairwise_coprime_def)
  have 3: "\<forall>x\<in>set (cs @ [i]). odd x \<and> n < x \<and> x < i + 2"
  proof
    fix y assume "y \<in> set (cs @ [i])"
    then have "y \<in> set cs \<or> y = i" by auto
    then show "odd y \<and> n < y \<and> y < i + 2" using el oi ni by fastforce
  qed
  have 4: "p * i = prod_list (cs @ [i])" using p by simp
  have 5: "1 \<le> m \<or> 2 \<le> length (cs @ [i]) \<longrightarrow> prod_list (butlast (cs @ [i])) \<le> m"
    using assms(2) p by simp
  have 6: "odd (i + 2)" using oi by simp
  have 7: "cs @ [i] \<noteq> []" by simp
  show ?thesis unfolding loop_inv_def using 1 2 3 4 5 6 7 by blast
qed

lemma loop_inv_skip:
  assumes "loop_inv n m i cs p"
  shows "loop_inv n m (i + 2) cs p"
proof -
  from assms have cs: "cs \<noteq> []" and p: "p = prod_list cs"
    and el: "\<forall>x\<in>set cs. odd x \<and> n < x \<and> x < i" and oi: "odd i"
    and so: "sorted_wrt (<) cs" and pc: "pairwise_coprime cs"
    and bl: "1 \<le> m \<or> 2 \<le> length cs \<longrightarrow> prod_list (butlast cs) \<le> m"
    by (simp_all add: loop_inv_def)
  have el': "\<forall>x\<in>set cs. odd x \<and> n < x \<and> x < i + 2"
  proof
    fix x assume "x \<in> set cs"
    then have "odd x \<and> n < x \<and> x < i" using el by (rule bspec[rotated])
    then show "odd x \<and> n < x \<and> x < i + 2" by linarith
  qed
  have oi': "odd (i + 2)" using oi by simp
  show ?thesis unfolding loop_inv_def using cs p el' oi' so pc bl by blast
qed

lemma loop_inv_exit:
  assumes "loop_inv n m i cs p" "\<not> p \<le> m"
  shows "loop_post n m cs"
proof -
  from assms have cs: "cs \<noteq> []" and p: "p = prod_list cs"
    and el: "\<forall>x\<in>set cs. odd x \<and> n < x \<and> x < i"
    and so: "sorted_wrt (<) cs" and pc: "pairwise_coprime cs"
    and bl: "1 \<le> m \<or> 2 \<le> length cs \<longrightarrow> prod_list (butlast cs) \<le> m"
    by (simp_all add: loop_inv_def)
  have el': "\<forall>x\<in>set cs. odd x \<and> n < x"
  proof
    fix x assume "x \<in> set cs"
    then have "odd x \<and> n < x \<and> x < i" using el by (rule bspec[rotated])
    then show "odd x \<and> n < x" by simp
  qed
  have "m < prod_list cs" using assms(2) p by simp
  then show ?thesis unfolding loop_post_def using cs el' so pc bl by blast
qed

lemma coprime_loop_partial:
  assumes "coprime_loop m i cs p = Some ys"
  shows "loop_inv n m i cs p \<longrightarrow> loop_post n m ys \<and> hd ys = hd cs"
proof (rule coprime_loop.raw_induct
    [where P = "\<lambda>m i cs p ys. loop_inv n m i cs p \<longrightarrow> loop_post n m ys \<and> hd ys = hd cs",
      OF _ assms])
  fix f :: "int \<Rightarrow> int \<Rightarrow> int list \<Rightarrow> int \<Rightarrow> int list option" and m i cs p ys
  assume IH: "\<And>m i cs p y. f m i cs p = Some y \<Longrightarrow>
      loop_inv n m i cs p \<longrightarrow> loop_post n m y \<and> hd y = hd cs"
    and hyps: "(if p \<le> m
      then if gcd i p = 1 then f m (i + 2) (cs @ [i]) (p * i) else f m (i + 2) cs p
      else Some cs) = Some ys"
  show "loop_inv n m i cs p \<longrightarrow> loop_post n m ys \<and> hd ys = hd cs"
  proof
    assume inv: "loop_inv n m i cs p"
    have ne: "cs \<noteq> []" using inv by (simp add: loop_inv_def)
    show "loop_post n m ys \<and> hd ys = hd cs"
    proof (cases "p \<le> m")
      case False
      then have "ys = cs" using hyps by simp
      then show ?thesis using loop_inv_exit[OF inv False] by simp
    next
      case le: True
      show ?thesis
      proof (cases "gcd i p = 1")
        case True
        then have "f m (i + 2) (cs @ [i]) (p * i) = Some ys" using hyps le by simp
        then have "loop_post n m ys \<and> hd ys = hd (cs @ [i])"
          using IH loop_inv_accept[OF inv le True] by blast
        then show ?thesis using ne by simp
      next
        case False
        then have "f m (i + 2) cs p = Some ys" using hyps le by simp
        then show ?thesis using IH loop_inv_skip[OF inv] by blast
      qed
    qed
  qed
qed

lemma first_candidate_odd: "odd (n + 1 + n mod 2 :: int)"
  by presburger

lemma find_coprime_numbers_partial:
  assumes "find_coprime_numbers n m = Some ys"
  shows "loop_post n m ys \<and> hd ys = n + 1 + n mod 2"
proof -
  let ?i = "n + 1 + n mod 2"
  have run: "coprime_loop m (?i + 2) [?i] ?i = Some ys"
    using assms by (simp add: find_coprime_numbers_def Let_def)
  have "n < ?i" by presburger
  then have "loop_inv n m (?i + 2) [?i] ?i"
    using first_candidate_odd[of n] by (simp add: loop_inv_def pairwise_coprime_def)
  then show ?thesis using coprime_loop_partial[OF run, of n] by simp
qed

subsection \<open>The loop ends\<close>

lemma coprime_candidate_exists:
  fixes i p :: int
  assumes "odd i" "odd p" "1 \<le> p"
  shows "\<exists>k::nat. gcd (i + 2 * int k) p = 1"
proof -
  define t where "t = 2 * \<bar>i\<bar> + 1"
  have ev: "even (p * t + 2 - i)" using assms(1,2) by (simp add: t_def)
  have nn: "0 \<le> p * t + 2 - i"
  proof -
    have t0: "0 \<le> t" by (simp add: t_def)
    have "1 * t \<le> p * t" using assms(3) t0 by (rule mult_right_mono)
    moreover have "i \<le> t" by (simp add: t_def)
    ultimately show ?thesis by linarith
  qed
  from ev obtain y where y: "p * t + 2 - i = 2 * y" by (rule evenE)
  have y0: "0 \<le> y" using nn y by linarith
  define k where "k = nat y"
  have k: "p * t + 2 - i = 2 * int k" using y y0 by (simp add: k_def)
  have "i + 2 * int k = t * p + 2" using k by (simp add: algebra_simps)
  then have "gcd (i + 2 * int k) p = gcd p (t * p + 2)" by (simp add: gcd.commute)
  also have "\<dots> = gcd p 2" by (rule gcd_add_mult)
  also have "\<dots> = 1"
  proof -
    have "coprime p 2" using assms(2) by simp
    then show ?thesis by (simp only: coprime_iff_gcd_eq_1)
  qed
  finally show ?thesis by (rule exI)
qed

lemma coprime_loop_advance:
  assumes "gcd (i + 2 * int k) p = 1" "p \<le> m"
  shows "\<exists>j. i \<le> j \<and> gcd j p = 1 \<and> (\<exists>d::nat. j = i + 2 * int d) \<and>
           coprime_loop m i cs p = coprime_loop m (j + 2) (cs @ [j]) (p * j)"
  using assms
proof (induction k arbitrary: i)
  case 0
  then have "gcd i p = 1" by simp
  then have "coprime_loop m i cs p = coprime_loop m (i + 2) (cs @ [i]) (p * i)"
    using 0 by (subst coprime_loop.simps) simp
  then show ?case using \<open>gcd i p = 1\<close> by (intro exI[of _ i]) (auto intro: exI[of _ 0])
next
  case (Suc k)
  show ?case
  proof (cases "gcd i p = 1")
    case True
    then have "coprime_loop m i cs p = coprime_loop m (i + 2) (cs @ [i]) (p * i)"
      using Suc.prems by (subst coprime_loop.simps) simp
    then show ?thesis using True by (intro exI[of _ i]) (auto intro: exI[of _ 0])
  next
    case False
    have "gcd (i + 2 + 2 * int k) p = 1" using Suc.prems(1) by (simp add: algebra_simps)
    then have "\<exists>j. i + 2 \<le> j \<and> gcd j p = 1 \<and> (\<exists>d::nat. j = i + 2 + 2 * int d) \<and>
           coprime_loop m (i + 2) cs p = coprime_loop m (j + 2) (cs @ [j]) (p * j)"
      using Suc.prems(2) by (rule Suc.IH)
    then obtain j where jj: "i + 2 \<le> j \<and> gcd j p = 1 \<and> (\<exists>d::nat. j = i + 2 + 2 * int d) \<and>
           coprime_loop m (i + 2) cs p = coprime_loop m (j + 2) (cs @ [j]) (p * j)" ..
    have j: "i + 2 \<le> j" "gcd j p = 1" "\<exists>d::nat. j = i + 2 + 2 * int d"
      "coprime_loop m (i + 2) cs p = coprime_loop m (j + 2) (cs @ [j]) (p * j)"
      using jj by simp_all
    from j(3) obtain d :: nat where d: "j = i + 2 + 2 * int d" ..
    have "coprime_loop m i cs p = coprime_loop m (i + 2) cs p"
      using False Suc.prems(2) by (subst coprime_loop.simps) simp
    then have "coprime_loop m i cs p = coprime_loop m (j + 2) (cs @ [j]) (p * j)"
      using j(4) by simp
    moreover have "\<exists>d'::nat. j = i + 2 * int d'" using d by (intro exI[of _ "Suc d"]) simp
    moreover have "i \<le> j" using j(1) by simp
    ultimately show ?thesis using j(2) by (intro exI[of _ j]) simp
  qed
qed

lemma coprime_loop_terminates:
  assumes "odd i" "3 \<le> i" "odd p" "1 \<le> p"
  shows "\<exists>ys. coprime_loop m i cs p = Some ys"
  using assms
proof (induction "nat (m + 1 - p)" arbitrary: i cs p rule: less_induct)
  case less
  show ?case
  proof (cases "p \<le> m")
    case False
    then show ?thesis by (subst coprime_loop.simps) simp
  next
    case True
    from coprime_candidate_exists[OF less.prems(1,3,4)]
    obtain k :: nat where k: "gcd (i + 2 * int k) p = 1" ..
    have "\<exists>j. i \<le> j \<and> gcd j p = 1 \<and> (\<exists>d::nat. j = i + 2 * int d) \<and>
           coprime_loop m i cs p = coprime_loop m (j + 2) (cs @ [j]) (p * j)"
      using k True by (rule coprime_loop_advance)
    then obtain j where jj: "i \<le> j \<and> gcd j p = 1 \<and> (\<exists>d::nat. j = i + 2 * int d) \<and>
           coprime_loop m i cs p = coprime_loop m (j + 2) (cs @ [j]) (p * j)" ..
    have j: "i \<le> j" "gcd j p = 1" "\<exists>d::nat. j = i + 2 * int d"
      "coprime_loop m i cs p = coprime_loop m (j + 2) (cs @ [j]) (p * j)"
      using jj by simp_all
    have oj: "odd j" using j(3) less.prems(1) by auto
    have j3: "3 \<le> j" using j(1) less.prems(2) by simp
    have "p * 3 \<le> p * j" using j3 less.prems(4) by (intro mult_left_mono) auto
    then have grow: "p < p * j" using less.prems(4) by linarith
    have "nat (m + 1 - p * j) < nat (m + 1 - p)" using grow True by linarith
    moreover have "odd (j + 2)" "3 \<le> j + 2" "odd (p * j)"
      using oj j3 less.prems(3) by auto
    moreover have "1 \<le> p * j" using less.prems(4) grow by linarith
    ultimately have "\<exists>ys. coprime_loop m (j + 2) (cs @ [j]) (p * j) = Some ys"
      by (rule less.hyps)
    then show ?thesis using j(4) by simp
  qed
qed

lemma find_coprime_numbers_terminates:
  assumes "- 1 \<le> n"
  shows "\<exists>ys. find_coprime_numbers n m = Some ys"
proof -
  let ?i = "n + 1 + n mod 2"
  have "1 \<le> ?i" using assms by presburger
  then have "\<exists>ys. coprime_loop m (?i + 2) [?i] ?i = Some ys"
    using first_candidate_odd[of n] by (intro coprime_loop_terminates) auto
  then show ?thesis by (simp add: find_coprime_numbers_def Let_def)
qed

text \<open>
  Claim C2, as stated, fails for an upper bound below 1: the list is the first candidate
  alone, and the empty product 1 of the list without it exceeds the bound.
\<close>

theorem find_coprime_numbers_butlast_counterexample:
  "find_coprime_numbers 0 0 = Some [1] \<and> \<not> prod_list (butlast [1 :: int]) \<le> 0"
  by code_simp

text \<open>
  Claim C2, amended. For all bounds \<open>n\<close> and \<open>m\<close>, a list that \<open>find_coprime_numbers\<close>
  returns is strictly increasing, consists of odd integers greater than \<open>n\<close>, is pairwise
  coprime and has a product above \<open>m\<close>; without its last element its product is at
  most \<open>m\<close> whenever \<open>1 \<le> m\<close> or the list has at least two elements; and for
  \<open>- 1 \<le> n\<close> the function does return.
\<close>

theorem find_coprime_numbers_output:
  "(\<forall>xs. find_coprime_numbers n m = Some xs \<longrightarrow>
      sorted_wrt (<) xs \<and> (\<forall>x\<in>set xs. odd x \<and> n < x) \<and> pairwise_coprime xs \<and>
      m < prod_list xs \<and>
      (1 \<le> m \<or> 2 \<le> length xs \<longrightarrow> prod_list (butlast xs) \<le> m)) \<and>
   (- 1 \<le> n \<longrightarrow> (\<exists>xs. find_coprime_numbers n m = Some xs))"
proof (intro conjI allI impI)
  fix xs assume "find_coprime_numbers n m = Some xs"
  then have post: "loop_post n m xs" using find_coprime_numbers_partial by blast
  then show "sorted_wrt (<) xs" "\<forall>x\<in>set xs. odd x \<and> n < x" "pairwise_coprime xs"
    "m < prod_list xs"
    by (simp_all add: loop_post_def)
  assume "1 \<le> m \<or> 2 \<le> length xs"
  then show "prod_list (butlast xs) \<le> m" using post by (simp add: loop_post_def)
next
  assume "- 1 \<le> n"
  then show "\<exists>xs. find_coprime_numbers n m = Some xs"
    by (rule find_coprime_numbers_terminates)
qed

theorem find_coprime_numbers_output_witness:
  "find_coprime_numbers 4 260 = Some [5, 7, 9] \<and>
   sorted_wrt (<) [5, 7, 9 :: int] \<and> list_all (\<lambda>x. odd x \<and> 4 < x) [5, 7, 9 :: int] \<and>
   pairwise_coprime [5, 7, 9] \<and> (260 :: int) < prod_list [5, 7, 9] \<and>
   (1 :: int) \<le> 260 \<and> prod_list (butlast [5, 7, 9 :: int]) \<le> 260 \<and>
   find_coprime_numbers (- 5) (- 2) = Some [- 3, - 1] \<and> \<not> (1 :: int) \<le> - 2 \<and>
   2 \<le> length [- 3, - 1 :: int] \<and> prod_list (butlast [- 3, - 1 :: int]) \<le> - 2 \<and>
   find_coprime_numbers 4 (- 7) = Some [5] \<and> (- 7 :: int) < prod_list [5]"
proof -
  have r: "find_coprime_numbers 4 260 = Some [5, 7, 9]" by code_simp
  have r2: "find_coprime_numbers (- 5) (- 2) = Some [- 3, - 1]" by code_simp
  have r3: "find_coprime_numbers 4 (- 7) = Some [5]" by code_simp
  have "sorted_wrt (<) [5, 7, 9 :: int] \<and> (\<forall>x\<in>set [5, 7, 9 :: int]. odd x \<and> 4 < x) \<and>
      pairwise_coprime [5, 7, 9] \<and> (260 :: int) < prod_list [5, 7, 9] \<and>
      ((1 :: int) \<le> 260 \<or> 2 \<le> length [5, 7, 9 :: int]
         \<longrightarrow> prod_list (butlast [5, 7, 9 :: int]) \<le> 260)"
    using find_coprime_numbers_output[of 4 260] r by blast
  moreover have "(1 :: int) \<le> - 2 \<or> 2 \<le> length [- 3, - 1 :: int]
      \<longrightarrow> prod_list (butlast [- 3, - 1 :: int]) \<le> - 2"
    using find_coprime_numbers_output[of "- 5" "- 2"] r2 by blast
  moreover have "(- 7 :: int) < prod_list [5]"
    using find_coprime_numbers_output[of 4 "- 7"] r3 by blast
  ultimately show ?thesis using r r2 r3 by (simp add: list_all_iff)
qed

lemma hd_le_prod_list:
  fixes xs :: "int list"
  assumes "xs \<noteq> []" "\<forall>x\<in>set xs. 0 < x"
  shows "hd xs \<le> prod_list xs"
proof -
  obtain x rest where xs: "xs = x # rest" using assms(1) by (cases xs) auto
  have "0 < prod_list rest" using assms(2) xs by (intro prod_list_pos) simp
  then have "x * 1 \<le> x * prod_list rest" using assms(2) xs by (intro mult_left_mono) auto
  then show ?thesis using xs by simp
qed

text \<open>
  Claim C10. For every lower bound \<open>0 \<le> n\<close> and every upper bound \<open>m\<close>,
  \<open>find_coprime_numbers\<close> returns a non-empty list whose first element is
  \<open>n + 1 + n mod 2\<close>; the product of the list is at least that element, and the Chinese
  remainder step succeeds on the list with any local offsets.
\<close>

theorem find_coprime_numbers_first_modulus:
  assumes "0 \<le> n"
  shows "\<exists>xs. find_coprime_numbers n m = Some xs \<and> xs \<noteq> [] \<and> hd xs = n + 1 + n mod 2 \<and>
           hd xs \<le> prod_list xs \<and>
           (\<forall>offsets. length offsets = length xs \<longrightarrow> (\<exists>k. crt xs offsets = Inr k))"
proof -
  obtain xs where xs: "find_coprime_numbers n m = Some xs"
    using find_coprime_numbers_terminates[of n m] assms by auto
  have post: "loop_post n m xs" and hd: "hd xs = n + 1 + n mod 2"
    using find_coprime_numbers_partial[OF xs] by simp_all
  have ne: "xs \<noteq> []" and pc: "pairwise_coprime xs" and gt: "\<forall>x\<in>set xs. odd x \<and> n < x"
    using post by (simp_all add: loop_post_def)
  have pos: "\<forall>x\<in>set xs. 0 < x"
  proof
    fix x assume "x \<in> set xs"
    then have "n < x" using gt by simp
    then show "0 < x" using assms by simp
  qed
  have "\<exists>k. crt xs offsets = Inr k" if "length offsets = length xs" for offsets
    using crt_solution[OF pos pc that] by blast
  then show ?thesis using xs ne hd hd_le_prod_list[OF ne pos] by blast
qed

theorem find_coprime_numbers_first_modulus_witness:
  "(0 :: int) \<le> 4 \<and> find_coprime_numbers 4 2 = Some [5] \<and> hd [5 :: int] = 4 + 1 + 4 mod 2 \<and>
   hd [5 :: int] \<le> prod_list [5] \<and> crt [5] [3] = Inr 3"
proof -
  have h: "(0 :: int) \<le> 4" by simp
  have r: "find_coprime_numbers 4 2 = Some [5]" by code_simp
  obtain xs where xs: "find_coprime_numbers 4 2 = Some xs" "hd xs = 4 + 1 + 4 mod 2"
    "hd xs \<le> prod_list xs"
    "\<forall>offsets. length offsets = length xs \<longrightarrow> (\<exists>k. crt xs offsets = Inr k)"
    using find_coprime_numbers_first_modulus[OF h, of 2] by blast
  have eq: "xs = [5]" using xs(1) r by simp
  have "\<exists>k. crt [5] [3] = Inr k" using xs(4) eq by simp
  moreover have "crt [5] [3] = Inr 3" by code_simp
  ultimately show ?thesis using r xs(2,3) eq by simp
qed

subsection \<open>A lower bound for which the loop runs forever\<close>

text \<open>
  For \<open>n = -2\<close> the first candidate is \<open>-1\<close>, the running product stays negative and
  never exceeds a bound \<open>0 \<le> m\<close>.
\<close>

lemma coprime_loop_negative_product:
  assumes "coprime_loop m i cs p = Some ys"
  shows "\<not> (p < 0 \<and> 0 < i \<and> 0 \<le> m)"
proof (rule coprime_loop.raw_induct
    [where P = "\<lambda>m i cs p ys. \<not> (p < 0 \<and> 0 < i \<and> 0 \<le> m)", OF _ assms])
  fix f :: "int \<Rightarrow> int \<Rightarrow> int list \<Rightarrow> int \<Rightarrow> int list option" and m i cs p ys
  assume IH: "\<And>m i cs p y. f m i cs p = Some y \<Longrightarrow> \<not> (p < 0 \<and> 0 < i \<and> 0 \<le> m)"
    and body: "(if p \<le> m
      then if gcd i p = 1 then f m (i + 2) (cs @ [i]) (p * i) else f m (i + 2) cs p
      else Some cs) = Some ys"
  show "\<not> (p < 0 \<and> 0 < i \<and> 0 \<le> m)"
  proof
    assume h: "p < 0 \<and> 0 < i \<and> 0 \<le> m"
    then have le: "p \<le> m" by simp
    have neg: "p * i < 0" using h by (simp add: mult_neg_pos)
    show False
    proof (cases "gcd i p = 1")
      case True
      then have "f m (i + 2) (cs @ [i]) (p * i) = Some ys" using body le by simp
      then have "\<not> (p * i < 0 \<and> 0 < i + 2 \<and> 0 \<le> m)" by (rule IH)
      then show False using neg h by simp
    next
      case False
      then have "f m (i + 2) cs p = Some ys" using body le by simp
      then have "\<not> (p < 0 \<and> 0 < i + 2 \<and> 0 \<le> m)" by (rule IH)
      then show False using h by simp
    qed
  qed
qed

lemma find_coprime_numbers_runs_forever:
  assumes "0 \<le> m"
  shows "find_coprime_numbers (- 2) m = None"
proof (cases "find_coprime_numbers (- 2) m")
  case None
  then show ?thesis .
next
  case (Some ys)
  then have "coprime_loop m 1 [- 1] (- 1) = Some ys"
    by (simp add: find_coprime_numbers_def Let_def)
  then have "\<not> ((- 1 :: int) < 0 \<and> (0 :: int) < 1 \<and> 0 \<le> m)"
    by (rule coprime_loop_negative_product)
  then show ?thesis using assms by simp
qed

section \<open>The pointer scan\<close>

lemma le_zdiv_iff:
  fixes q x A :: int
  assumes "0 < A"
  shows "q \<le> x div A \<longleftrightarrow> q * A \<le> x"
proof
  assume "q \<le> x div A"
  then have "q * A \<le> (x div A) * A" using assms by (intro mult_right_mono) auto
  also have "\<dots> = x - x mod A" by (simp add: minus_mod_eq_div_mult)
  also have "\<dots> \<le> x" using assms by simp
  finally show "q * A \<le> x" .
next
  assume "q * A \<le> x"
  then have "q * A div A \<le> x div A" using assms by (rule zdiv_mono1)
  then show "q \<le> x div A" using assms by simp
qed

lemma range_count:
  fixes s A :: int
  assumes "0 < A"
  shows "k < nat ((s + A - 1) div A) \<longleftrightarrow> int k * A < s"
proof -
  have "k < nat ((s + A - 1) div A) \<longleftrightarrow> int k + 1 \<le> (s + A - 1) div A" by linarith
  also have "\<dots> \<longleftrightarrow> (int k + 1) * A \<le> s + A - 1" using assms by (rule le_zdiv_iff)
  also have "\<dots> \<longleftrightarrow> int k * A < s" by (auto simp: algebra_simps)
  finally show ?thesis .
qed

lemma py_slice_window:
  assumes "0 \<le> W" "i + nat W \<le> length b"
  shows "py_slice b (int i) (int i + W) = take (nat W) (drop i b)"
proof -
  have "slice_index (length b) (int i) = i" using assms by (simp add: slice_index_def)
  moreover have "slice_index (length b) (int i + W) = i + nat W"
    using assms by (simp add: slice_index_def nat_add_distrib)
  ultimately show ?thesis by (simp add: py_slice_def take_drop add.commute)
qed

lemma window_at:
  assumes "0 \<le> W" "1 \<le> A" "k * nat A + nat W \<le> length b"
  shows "from_bytes e (py_slice b (int k * A) (int k * A + W))
    = from_bytes e (take (nat W) (drop (k * nat A) b))"
proof -
  have e: "int k * A = int (k * nat A)" using assms(2) by simp
  show ?thesis unfolding e by (simp only: py_slice_window[OF assms(1,3)])
qed

lemma scan_pointers_fold:
  "fold (\<lambda>i pointed. insert (f i) pointed) offs S = f ` set offs \<union> S"
  by (induction offs arbitrary: S) auto

lemma scan_pointers_image:
  "scan_pointers b e W offs = (\<lambda>i. from_bytes e (py_slice b i (i + W))) ` set offs"
  by (simp add: scan_pointers_def scan_pointers_fold)

lemma get_pointed_addresses_set:
  assumes "0 \<le> W" "1 \<le> A"
  shows "get_pointed_addresses b e W A =
     Inr {from_bytes e (take (nat W) (drop i b)) | i. (\<exists>k::nat. i = k * nat A) \<and> i + nat W \<le> length b}"
proof -
  let ?N = "nat ((int (length b) - W + 1 - 0 + A - 1) div A)"
  let ?f = "\<lambda>i. from_bytes e (py_slice b i (i + W))"
  have r: "py_range 0 (int (length b) - W + 1) A = Inr (map (\<lambda>k. 0 + int k * A) [0..<?N])"
    using assms(2) by (simp add: py_range_def)
  have inN: "k < ?N \<longleftrightarrow> k * nat A + nat W \<le> length b" for k
  proof -
    have "k < ?N \<longleftrightarrow> int k * A < int (length b) - W + 1"
      using range_count[of A k "int (length b) - W + 1"] assms(2) by simp
    also have "\<dots> \<longleftrightarrow> int k * A + W \<le> int (length b)" by linarith
    also have "\<dots> \<longleftrightarrow> int (k * nat A + nat W) \<le> int (length b)"
      using assms by simp
    also have "\<dots> \<longleftrightarrow> k * nat A + nat W \<le> length b" by (rule of_nat_le_iff)
    finally show ?thesis .
  qed
  have "?f ` set (map (\<lambda>k. 0 + int k * A) [0..<?N]) =
      {from_bytes e (take (nat W) (drop i b)) | i. (\<exists>k::nat. i = k * nat A) \<and> i + nat W \<le> length b}"
    (is "?L = ?R")
  proof (intro set_eqI iffI)
    fix v assume "v \<in> ?L"
    then obtain k where k: "k < ?N" "v = ?f (int k * A)" by auto
    have le: "k * nat A + nat W \<le> length b" using k(1) inN by simp
    have "v = from_bytes e (take (nat W) (drop (k * nat A) b))"
      using k(2) window_at[OF assms le] by simp
    then show "v \<in> ?R" using le by blast
  next
    fix v assume "v \<in> ?R"
    then obtain k :: nat where k: "k * nat A + nat W \<le> length b"
      "v = from_bytes e (take (nat W) (drop (k * nat A) b))" by blast
    have kN: "k < ?N" using k(1) inN by simp
    have v: "v = ?f (int k * A)"
      using k(2) window_at[OF assms k(1)] by simp
    have "k \<in> set [0..<?N]" using kN by simp
    then have "0 + int k * A \<in> (\<lambda>k. 0 + int k * A) ` set [0..<?N]" by (rule imageI)
    then have "int k * A \<in> set (map (\<lambda>k. 0 + int k * A) [0..<?N])" by simp
    with v show "v \<in> ?L" by (rule image_eqI)
  qed
  then show ?thesis
    using r by (simp add: get_pointed_addresses_def bind_err_def scan_pointers_image)
qed

text \<open>
  Claim C7. For every blob, byte order, pointer width \<open>0 \<le> W\<close> and stride
  \<open>1 \<le> A\<close>, \<open>get_pointed_addresses\<close> returns exactly the set of the unsigned integers
  decoded from the \<open>W\<close> bytes at \<open>i\<close>, for the offsets \<open>i = 0, A, 2A, \<dots>\<close> with
  \<open>i + W \<le> len(b)\<close>; and scanning the same offsets in any other order gives the same
  set.
\<close>

theorem get_pointed_addresses_windows:
  assumes "0 \<le> W" "1 \<le> A"
  shows "get_pointed_addresses b e W A =
           Inr {from_bytes e (take (nat W) (drop i b)) | i.
                  (\<exists>k::nat. i = k * nat A) \<and> i + nat W \<le> length b} \<and>
         (\<forall>offs offs'. py_range 0 (int (length b) - W + 1) A = Inr offs \<and> set offs' = set offs
             \<longrightarrow> get_pointed_addresses b e W A = Inr (scan_pointers b e W offs'))"
proof -
  have "get_pointed_addresses b e W A = Inr (scan_pointers b e W offs')"
    if "py_range 0 (int (length b) - W + 1) A = Inr offs \<and> set offs' = set offs" for offs offs'
    using that by (simp add: get_pointed_addresses_def bind_err_def scan_pointers_image)
  then show ?thesis using get_pointed_addresses_set[OF assms] by blast
qed

theorem get_pointed_addresses_windows_witness:
  "(0 :: int) \<le> 2 \<and> (1 :: int) \<le> 4 \<and>
   get_pointed_addresses [1, 2, 3, 4, 5, 6, 7, 8, 9] Little 2 4 = Inr {513, 1541} \<and>
   py_range 0 (int (length [1, 2, 3, 4, 5, 6, 7, 8, 9 :: byte]) - 2 + 1) 4 = Inr [0, 4] \<and>
   scan_pointers [1, 2, 3, 4, 5, 6, 7, 8, 9] Little 2 [4, 0] = {513, 1541}"
proof -
  have h: "(0 :: int) \<le> 2" "(1 :: int) \<le> 4" by simp_all
  have r: "py_range 0 (int (length [1, 2, 3, 4, 5, 6, 7, 8, 9 :: byte]) - 2 + 1) 4 = Inr [0, 4]"
    by code_simp
  have s: "scan_pointers [1, 2, 3, 4, 5, 6, 7, 8, 9] Little 2 [4, 0] = {513, 1541}"
    by code_simp
  have "set [4, 0 :: int] = set [0, 4]" by auto
  then have "get_pointed_addresses [1, 2, 3, 4, 5, 6, 7, 8, 9] Little 2 4
      = Inr (scan_pointers [1, 2, 3, 4, 5, 6, 7, 8, 9] Little 2 [4, 0])"
    using get_pointed_addresses_windows[OF h, of "[1, 2, 3, 4, 5, 6, 7, 8, 9]" Little] r by blast
  then show ?thesis using r s by simp
qed

section \<open>The local offsets\<close>

lemma length_add_at [simp]: "length (add_at a i) = length a"
  by (simp add: add_at_def Let_def)

lemma length_fold_add_at [simp]: "length (fold (\<lambda>x a. add_at a (g x)) A a0) = length a0"
  by (induction A arbitrary: a0) simp_all

lemma argmax_loop_bound:
  "best < i \<Longrightarrow> argmax_loop best v i xs < i + length xs"
proof (induction xs arbitrary: best v i)
  case Nil
  then show ?case by simp
next
  case (Cons x xs)
  have "argmax_loop i x (Suc i) xs < Suc i + length xs" by (rule Cons.IH) simp
  moreover have "argmax_loop best v (Suc i) xs < Suc i + length xs"
    using Cons.prems by (intro Cons.IH) simp
  ultimately show ?case by simp
qed

lemma np_argmax_bound:
  assumes "np_argmax xs = Inr r"
  shows "r < length xs"
proof (cases xs)
  case Nil
  then show ?thesis using assms by (simp add: np_argmax_def)
next
  case (Cons x rest)
  then have "r = argmax_loop 0 x 1 rest" using assms by (simp add: np_argmax_def)
  then show ?thesis using argmax_loop_bound[of 0 1 x rest] Cons by simp
qed

lemma circular_convolution_length:
  assumes "circular_convolution a b = Inr corr"
  shows "length corr = length a"
  using assms by (auto simp: circular_convolution_def Let_def split: if_splits)

lemma correlate_range:
  assumes "correlate A B p = Inr offset"
  shows "0 \<le> offset \<and> offset < p"
proof -
  have p: "0 \<le> p" using assms by (auto simp: correlate_def split: if_splits)
  let ?a = "fold (\<lambda>x a. add_at a (x mod p)) A (np_zeros p)"
  let ?b = "fold (\<lambda>x b. add_at b (- (x mod p))) B (np_zeros p)"
  obtain corr r where c: "circular_convolution ?a ?b = Inr corr" and r: "np_argmax corr = Inr r"
    and o: "offset = int r"
    using assms by (auto simp: correlate_def bind_err_def Let_def split: if_splits sum.splits)
  have "length corr = nat p"
    using circular_convolution_length[OF c] by (simp add: np_zeros_def)
  then have "r < nat p" using np_argmax_bound[OF r] by simp
  then show ?thesis using o by simp
qed

lemma correlate_defined:
  assumes "1 \<le> p"
  shows "\<exists>offset. correlate A B p = Inr offset"
proof -
  let ?a = "fold (\<lambda>x a. add_at a (x mod p)) A (np_zeros p)"
  let ?b = "fold (\<lambda>x b. add_at b (- (x mod p))) B (np_zeros p)"
  have la: "length ?a = nat p" by (simp add: np_zeros_def)
  then have "length ?a \<noteq> 0" using assms by simp
  then obtain corr where c: "circular_convolution ?a ?b = Inr corr" "corr \<noteq> []"
    by (auto simp: circular_convolution_def Let_def)
  then obtain r where "np_argmax corr = Inr r" by (cases corr) (auto simp: np_argmax_def)
  then show ?thesis using assms c(1) by (simp add: correlate_def bind_err_def Let_def)
qed

lemma overlap_loop_range:
  assumes "overlap_loop A B modulos = (offsets, r)"
  shows "length offsets \<le> length modulos \<and> (r = None \<longrightarrow> length offsets = length modulos) \<and>
         (\<forall>i<length offsets. 0 \<le> offsets ! i \<and> offsets ! i < modulos ! i)"
  using assms
proof (induction modulos arbitrary: offsets r)
  case Nil
  then show ?case by simp
next
  case (Cons p ps)
  show ?case
  proof (cases "correlate A B p")
    case (Inl e)
    then show ?thesis using Cons.prems by auto
  next
    case (Inr offset)
    obtain offs r' where rec: "overlap_loop A B ps = (offs, r')" by (cases "overlap_loop A B ps")
    have eq: "offsets = offset # offs" "r = r'" using Cons.prems Inr rec by simp_all
    have IH: "length offs \<le> length ps \<and> (r' = None \<longrightarrow> length offs = length ps) \<and>
         (\<forall>i<length offs. 0 \<le> offs ! i \<and> offs ! i < ps ! i)"
      using Cons.IH[OF rec] .
    have rng: "0 \<le> offset \<and> offset < p" using correlate_range[OF Inr] .
    have "\<forall>i<length (offset # offs). 0 \<le> (offset # offs) ! i \<and> (offset # offs) ! i < (p # ps) ! i"
    proof (intro allI impI)
      fix i assume "i < length (offset # offs)"
      then show "0 \<le> (offset # offs) ! i \<and> (offset # offs) ! i < (p # ps) ! i"
        using rng IH by (cases i) auto
    qed
    then show ?thesis using IH eq by simp
  qed
qed

lemma overlap_loop_defined:
  assumes "\<forall>p\<in>set modulos. 1 \<le> p"
  shows "snd (overlap_loop A B modulos) = None"
  using assms
proof (induction modulos)
  case Nil
  then show ?case by simp
next
  case (Cons p ps)
  then obtain offset where "correlate A B p = Inr offset"
    using correlate_defined[of p A B] by auto
  then show ?case using Cons by (auto split: prod.splits)
qed

text \<open>
  Claim C9. Every local offset that the loop of \<open>find_max_overlap\<close> records lies in
  \<open>[0, p)\<close> for its modulus \<open>p\<close>, and for moduli that are all at least 1 the loop
  records one offset for each modulus and raises nothing: the residues passed to the
  Chinese remainder step are residues of their moduli.
\<close>

theorem local_offsets_are_residues:
  assumes "overlap_loop A B modulos = (offsets, r)"
  shows "length offsets \<le> length modulos \<and>
         (\<forall>i<length offsets. 0 \<le> offsets ! i \<and> offsets ! i < modulos ! i) \<and>
         ((\<forall>p\<in>set modulos. 1 \<le> p) \<longrightarrow> r = None \<and> length offsets = length modulos)"
proof -
  have "r = None" if "\<forall>p\<in>set modulos. 1 \<le> p"
    using overlap_loop_defined[OF that, of A B] assms by simp
  then show ?thesis using overlap_loop_range[OF assms] by blast
qed

theorem local_offsets_are_residues_witness:
  "overlap_loop [510, 550, 590] [10, 50, 90] [7, 9, 11] = ([3, 5, 5], None) \<and>
   length [3, 5, 5 :: int] \<le> length [7, 9, 11 :: int] \<and>
   (0 :: int) \<le> 3 \<and> (3 :: int) < 7 \<and> (0 :: int) \<le> 5 \<and> (5 :: int) < 9 \<and> (5 :: int) < 11"
proof -
  have r: "overlap_loop [510, 550, 590] [10, 50, 90] [7, 9, 11] = ([3, 5, 5], None)"
    by code_simp
  have "\<forall>i<length [3, 5, 5 :: int]. 0 \<le> [3, 5, 5 :: int] ! i \<and> [3, 5, 5] ! i < [7, 9, 11 :: int] ! i"
    using local_offsets_are_residues[OF r] by blast
  then show ?thesis using r by simp
qed

section \<open>The correlation for one modulus\<close>

lemma add_at_nth:
  assumes "length a = n" "- int n < k" "k < int n" "i < n"
  shows "add_at a k ! i = a ! i + (if k mod int n = int i then 1 else 0)"
proof -
  let ?j = "nat (if k < 0 then k + int n else k)"
  have j: "int ?j = k mod int n"
  proof (cases "k < 0")
    case True
    have "k mod int n = (k + int n) mod int n" by simp
    also have "\<dots> = k + int n" using True assms(2) by (intro mod_pos_pos_trivial) auto
    finally show ?thesis using True assms(2) by simp
  next
    case False
    then show ?thesis using assms(3) by simp
  qed
  have "k mod int n < int n" using assms(4) by (intro pos_mod_bound) simp
  then have jn: "?j < n" using j by linarith
  have "add_at a k = a[?j := a ! ?j + 1]" by (simp add: add_at_def Let_def assms(1))
  then have "add_at a k ! i = (if ?j = i then a ! i + 1 else a ! i)"
    using assms(1,4) jn by (auto simp: nth_list_update)
  moreover have "?j = i \<longleftrightarrow> k mod int n = int i" using j by linarith
  ultimately show ?thesis by simp
qed

lemma fold_add_at_nth:
  assumes "length a0 = n" "i < n" "\<forall>x\<in>set A. - int n < h x \<and> h x < int n"
  shows "fold (\<lambda>x a. add_at a (h x)) A a0 ! i
    = a0 ! i + real (length (filter (\<lambda>x. h x mod int n = int i) A))"
  using assms
proof (induction A arbitrary: a0)
  case Nil
  then show ?case by simp
next
  case (Cons x A)
  have hx: "- int n < h x" "h x < int n" using Cons.prems(3) by simp_all
  have len: "length (add_at a0 (h x)) = n" using Cons.prems(1) by (simp add: add_at_def Let_def)
  have "fold (\<lambda>x a. add_at a (h x)) A (add_at a0 (h x)) ! i
      = add_at a0 (h x) ! i + real (length (filter (\<lambda>x. h x mod int n = int i) A))"
    using Cons.prems by (intro Cons.IH[OF len]) auto
  also have "add_at a0 (h x) ! i = a0 ! i + (if h x mod int n = int i then 1 else 0)"
    using Cons.prems(1,2) hx by (intro add_at_nth) auto
  finally show ?case by simp
qed

text \<open>The two histograms of one pass: how many members fall into each residue class.\<close>

lemma histogram_a_nth:
  assumes "1 \<le> p" "i < nat p"
  shows "fold (\<lambda>x a. add_at a (x mod p)) A (np_zeros p) ! i
    = real (length (filter (\<lambda>x. x mod p = int i) A))"
proof -
  have "\<forall>x\<in>set A. - int (nat p) < x mod p \<and> x mod p < int (nat p)"
  proof
    fix x
    have "0 \<le> x mod p" "x mod p < p" using assms(1) by simp_all
    moreover have "int (nat p) = p" using assms(1) by simp
    ultimately show "- int (nat p) < x mod p \<and> x mod p < int (nat p)" by linarith
  qed
  then have "fold (\<lambda>x a. add_at a (x mod p)) A (np_zeros p) ! i
      = np_zeros p ! i + real (length (filter (\<lambda>x. (x mod p) mod int (nat p) = int i) A))"
    using assms(2) by (intro fold_add_at_nth) (simp_all add: np_zeros_def)
  then show ?thesis using assms by (simp add: np_zeros_def)
qed

lemma histogram_b_nth:
  assumes "1 \<le> p" "i < nat p"
  shows "fold (\<lambda>x b. add_at b (- (x mod p))) B (np_zeros p) ! i
    = real (length (filter (\<lambda>x. (- x) mod p = int i) B))"
proof -
  have "\<forall>x\<in>set B. - int (nat p) < - (x mod p) \<and> - (x mod p) < int (nat p)"
  proof
    fix x
    have "0 \<le> x mod p" "x mod p < p" using assms(1) by simp_all
    moreover have "int (nat p) = p" using assms(1) by simp
    ultimately show "- int (nat p) < - (x mod p) \<and> - (x mod p) < int (nat p)" by linarith
  qed
  then have "fold (\<lambda>x b. add_at b (- (x mod p))) B (np_zeros p) ! i
      = np_zeros p ! i + real (length (filter (\<lambda>x. (- (x mod p)) mod int (nat p) = int i) B))"
    using assms(2) by (intro fold_add_at_nth) (simp_all add: np_zeros_def)
  then show ?thesis using assms by (simp add: np_zeros_def mod_minus_eq)
qed

lemma real_of_nat_sum_list: "real (sum_list ns) = (\<Sum>n\<leftarrow>ns. real n)"
  by (induction ns) simp_all

lemma circular_convolution_nth:
  assumes "circular_convolution a b = Inr corr" "j < length a"
  shows "corr ! j = (\<Sum>i\<leftarrow>[0..<length a]. a ! i * b ! ((j + length a - i) mod length a))"
proof -
  have "corr = map (\<lambda>j. \<Sum>i\<leftarrow>[0..<length a]. a ! i * b ! ((j + length a - i) mod length a))
      [0..<length a]"
    using assms by (auto simp: circular_convolution_def Let_def split: if_splits)
  then show ?thesis using assms(2) by simp
qed

lemma indicator_sum_upt:
  fixes g :: "nat \<Rightarrow> real"
  assumes "k < n"
  shows "(\<Sum>i\<leftarrow>[0..<n]. if k = i then g i else 0) = g k"
proof -
  have "(\<Sum>i\<leftarrow>[0..<n]. if k = i then g i else 0) = (\<Sum>i\<in>{0..<n}. if k = i then g i else 0)"
    by (simp add: interv_sum_list_conv_sum_set_nat)
  also have "\<dots> = g k" using assms by simp
  finally show ?thesis .
qed

lemma hist_weighted_sum:
  fixes g :: "nat \<Rightarrow> real"
  assumes "\<forall>x\<in>set A. 0 \<le> h x \<and> h x < int n"
  shows "(\<Sum>i\<leftarrow>[0..<n]. real (length (filter (\<lambda>x. h x = int i) A)) * g i)
    = (\<Sum>x\<leftarrow>A. g (nat (h x)))"
  using assms
proof (induction A)
  case Nil
  then show ?case by simp
next
  case (Cons x A)
  have "0 \<le> h x \<and> h x < int n" using Cons.prems by simp
  then have hx: "nat (h x) < n" by linarith
  have eq: "real (length (filter (\<lambda>x. h x = int i) (x # A))) * g i
      = (if nat (h x) = i then g i else 0) + real (length (filter (\<lambda>x. h x = int i) A)) * g i"
    for i
    using Cons.prems by (auto simp: algebra_simps)
  have "(\<Sum>i\<leftarrow>[0..<n]. real (length (filter (\<lambda>x. h x = int i) (x # A))) * g i)
      = (\<Sum>i\<leftarrow>[0..<n]. (if nat (h x) = i then g i else 0)
            + real (length (filter (\<lambda>x. h x = int i) A)) * g i)"
    by (simp only: eq)
  also have "\<dots> = (\<Sum>i\<leftarrow>[0..<n]. if nat (h x) = i then g i else 0)
      + (\<Sum>i\<leftarrow>[0..<n]. real (length (filter (\<lambda>x. h x = int i) A)) * g i)"
    by (rule sum_list_addf)
  also have "\<dots> = g (nat (h x)) + (\<Sum>x\<leftarrow>A. g (nat (h x)))"
    using Cons.IH Cons.prems indicator_sum_upt[OF hx, of g] by simp
  finally show ?case by simp
qed

lemma shifted_index:
  assumes "1 \<le> p" "j < nat p"
  shows "int ((j + nat p - nat (x mod p)) mod nat p) = (int j - x) mod p"
proof -
  have xm: "0 \<le> x mod p" "x mod p < p" using assms(1) by simp_all
  have "nat (x mod p) \<le> j + nat p" using xm by linarith
  then have e1: "int (j + nat p - nat (x mod p)) = int j + int (nat p) - int (nat (x mod p))"
    by (simp add: of_nat_diff)
  have e2: "int (nat p) = p" using assms(1) by simp
  have e3: "int (nat (x mod p)) = x mod p" using xm by simp
  have "int (j + nat p - nat (x mod p)) = int j + p - x mod p" by (simp only: e1 e2 e3)
  then have "int ((j + nat p - nat (x mod p)) mod nat p) = (int j + p - x mod p) mod p"
    using assms(1) by (simp add: zmod_int)
  also have "\<dots> = (int j - x mod p) mod p"
    by (metis add_diff_eq diff_add_eq mod_add_self2)
  also have "\<dots> = (int j - x) mod p" by (simp add: mod_diff_right_eq)
  finally show ?thesis .
qed

lemma class_shift:
  fixes x y p j :: int
  assumes "0 \<le> j" "j < p"
  shows "(- y) mod p = (j - x) mod p \<longleftrightarrow> (x - y) mod p = j"
proof -
  have "(- y) mod p = (j - x) mod p \<longleftrightarrow> p dvd (- y - (j - x))" by (simp add: mod_eq_dvd_iff)
  also have "- y - (j - x) = (x - y) - j" by simp
  also have "p dvd ((x - y) - j) \<longleftrightarrow> (x - y) mod p = j mod p" by (simp add: mod_eq_dvd_iff)
  also have "j mod p = j" using assms by simp
  finally show ?thesis .
qed

lemma correlation_counts:
  assumes "1 \<le> p" "j < nat p"
    and "circular_convolution (fold (\<lambda>x a. add_at a (x mod p)) A (np_zeros p))
           (fold (\<lambda>x b. add_at b (- (x mod p))) B (np_zeros p)) = Inr corr"
  shows "corr ! j = real (overlap_count A B p (int j))"
proof -
  let ?n = "nat p"
  let ?a = "fold (\<lambda>x a. add_at a (x mod p)) A (np_zeros p)"
  let ?b = "fold (\<lambda>x b. add_at b (- (x mod p))) B (np_zeros p)"
  let ?g = "\<lambda>i. real (length (filter (\<lambda>y. (- y) mod p = int ((j + ?n - i) mod ?n)) B))"
  have la: "length ?a = ?n" by (simp add: np_zeros_def)
  have npos: "0 < ?n" using assms(1) by simp
  have "corr ! j = (\<Sum>i\<leftarrow>[0..<?n]. ?a ! i * ?b ! ((j + ?n - i) mod ?n))"
    using circular_convolution_nth[OF assms(3)] assms(2) la by simp
  also have "\<dots> = (\<Sum>i\<leftarrow>[0..<?n]. real (length (filter (\<lambda>x. x mod p = int i) A)) * ?g i)"
  proof (rule arg_cong[where f = sum_list], rule map_cong[OF refl])
    fix i assume "i \<in> set [0..<?n]"
    then have i: "i < ?n" by simp
    have k: "(j + ?n - i) mod ?n < ?n" using npos by simp
    show "?a ! i * ?b ! ((j + ?n - i) mod ?n)
        = real (length (filter (\<lambda>x. x mod p = int i) A)) * ?g i"
      by (simp only: histogram_a_nth[OF assms(1) i] histogram_b_nth[OF assms(1) k])
  qed
  also have "\<dots> = (\<Sum>x\<leftarrow>A. ?g (nat (x mod p)))"
  proof (rule hist_weighted_sum)
    show "\<forall>x\<in>set A. 0 \<le> x mod p \<and> x mod p < int ?n" using assms(1) by simp
  qed
  also have "\<dots> = (\<Sum>x\<leftarrow>A. real (length (filter (\<lambda>y. (x - y) mod p = int j) B)))"
  proof (rule arg_cong[where f = sum_list], rule map_cong[OF refl])
    fix x
    have jp: "0 \<le> int j" "int j < p" using assms(2) by simp_all
    have "(\<lambda>y. (- y) mod p = int ((j + ?n - nat (x mod p)) mod ?n))
        = (\<lambda>y. (x - y) mod p = int j)"
      by (simp only: shifted_index[OF assms(1,2)] class_shift[OF jp])
    then show "?g (nat (x mod p)) = real (length (filter (\<lambda>y. (x - y) mod p = int j) B))"
      by simp
  qed
  also have "\<dots> = real (overlap_count A B p (int j))"
    by (simp add: overlap_count_def real_of_nat_sum_list comp_def)
  finally show ?thesis .
qed

lemma argmax_loop_keeps:
  "\<forall>x\<in>set xs. \<not> v < x \<Longrightarrow> argmax_loop best v i xs = best"
  by (induction xs arbitrary: i) simp_all

lemma np_argmax_constant:
  assumes "xs \<noteq> []" "\<forall>j<length xs. xs ! j = c"
  shows "np_argmax xs = Inr 0"
proof -
  obtain x rest where xs: "xs = x # rest" using assms(1) by (cases xs) auto
  have "x = c" using assms(2) xs by auto
  moreover have "\<forall>y\<in>set rest. y = c"
  proof
    fix y assume "y \<in> set rest"
    then obtain k where "k < length rest" "y = rest ! k" by (metis in_set_conv_nth)
    then show "y = c" using assms(2) xs by (auto dest: spec[of _ "Suc k"])
  qed
  ultimately have "\<forall>y\<in>set rest. \<not> x < y" by simp
  then have "argmax_loop 0 x 1 rest = 0" by (rule argmax_loop_keeps)
  then show ?thesis using xs by (simp add: np_argmax_def)
qed

lemma argmax_loop_max:
  assumes "best < i" "xs = drop i ys" "v = ys ! best" "\<forall>j<i. ys ! j \<le> v"
  shows "\<forall>j<length ys. ys ! j \<le> ys ! argmax_loop best v i xs"
  using assms
proof (induction xs arbitrary: best v i)
  case Nil
  then have "length ys \<le> i" by simp
  then show ?case using Nil.prems(3,4) by simp
next
  case (Cons x xs)
  have il: "i < length ys" using Cons.prems(2) by (cases "i < length ys") auto
  have "ys ! i # drop (Suc i) ys = x # xs"
    using Cons_nth_drop_Suc[OF il] Cons.prems(2) by simp
  then have xi: "ys ! i = x" and rest: "xs = drop (Suc i) ys" by simp_all
  show ?case
  proof (cases "v < x")
    case True
    have "\<forall>j<Suc i. ys ! j \<le> x"
    proof (intro allI impI)
      fix j assume "j < Suc i"
      then consider "j < i" | "j = i" by linarith
      then show "ys ! j \<le> x"
      proof cases
        case 1
        then have "ys ! j \<le> v" using Cons.prems(4) by simp
        then show ?thesis using True by simp
      next
        case 2
        then show ?thesis using xi by simp
      qed
    qed
    moreover have "i < Suc i" by simp
    moreover have "x = ys ! i" using xi by simp
    ultimately have "\<forall>j<length ys. ys ! j \<le> ys ! argmax_loop i x (Suc i) xs"
      using rest by (intro Cons.IH)
    then show ?thesis using True by simp
  next
    case False
    have "\<forall>j<Suc i. ys ! j \<le> v"
    proof (intro allI impI)
      fix j assume "j < Suc i"
      then consider "j < i" | "j = i" by linarith
      then show "ys ! j \<le> v"
      proof cases
        case 1
        then show ?thesis using Cons.prems(4) by simp
      next
        case 2
        then show ?thesis using xi False by simp
      qed
    qed
    moreover have "best < Suc i" using Cons.prems(1) by simp
    ultimately have "\<forall>j<length ys. ys ! j \<le> ys ! argmax_loop best v (Suc i) xs"
      using rest Cons.prems(3) by (intro Cons.IH)
    then show ?thesis using False by simp
  qed
qed

lemma np_argmax_max:
  assumes "np_argmax ys = Inr r"
  shows "\<forall>j<length ys. ys ! j \<le> ys ! r"
proof (cases ys)
  case Nil
  then show ?thesis by simp
next
  case (Cons y rest)
  then have r: "r = argmax_loop 0 y 1 rest" using assms by (simp add: np_argmax_def)
  have "\<forall>j<length ys. ys ! j \<le> ys ! argmax_loop 0 y 1 rest"
  proof (rule argmax_loop_max)
    show "(0 :: nat) < 1" by simp
    show "rest = drop 1 ys" using Cons by simp
    show "y = ys ! 0" using Cons by simp
    show "\<forall>j<1. ys ! j \<le> y" using Cons by simp
  qed
  then show ?thesis using r by simp
qed

lemma np_argmax_unique:
  assumes "d < length ys" "\<forall>j<length ys. j \<noteq> d \<longrightarrow> ys ! j < ys ! d"
  shows "np_argmax ys = Inr d"
proof -
  obtain r where r: "np_argmax ys = Inr r" using assms(1) by (cases ys) (auto simp: np_argmax_def)
  have rl: "r < length ys" using np_argmax_bound[OF r] .
  have "ys ! d \<le> ys ! r" using np_argmax_max[OF r] assms(1) by simp
  then have "r = d" using assms(2) rl by force
  then show ?thesis using r by simp
qed

text \<open>The pass for one modulus, by the counts of the differences it compares.\<close>

lemma correlate_convolution:
  assumes "1 \<le> p"
  shows "\<exists>corr. circular_convolution (fold (\<lambda>x a. add_at a (x mod p)) A (np_zeros p))
           (fold (\<lambda>x b. add_at b (- (x mod p))) B (np_zeros p)) = Inr corr \<and>
         length corr = nat p \<and>
         (\<forall>j<nat p. corr ! j = real (overlap_count A B p (int j))) \<and>
         correlate A B p = bind_err (np_argmax corr) (\<lambda>offset. Inr (int offset))"
proof -
  let ?a = "fold (\<lambda>x a. add_at a (x mod p)) A (np_zeros p)"
  let ?b = "fold (\<lambda>x b. add_at b (- (x mod p))) B (np_zeros p)"
  have la: "length ?a = nat p" by (simp add: np_zeros_def)
  then have "length ?a \<noteq> 0" using assms by simp
  then obtain corr where c: "circular_convolution ?a ?b = Inr corr"
    by (auto simp: circular_convolution_def Let_def)
  have lc: "length corr = nat p" using circular_convolution_length[OF c] la by simp
  have cnt: "\<forall>j<nat p. corr ! j = real (overlap_count A B p (int j))"
    using correlation_counts[OF assms _ c] by blast
  have "correlate A B p = bind_err (np_argmax corr) (\<lambda>offset. Inr (int offset))"
    using assms c by (simp add: correlate_def bind_err_def Let_def)
  then show ?thesis using c lc cnt by blast
qed

lemma correlate_unique_maximum:
  assumes "1 \<le> p" "0 \<le> d" "d < p"
    and "\<forall>j. 0 \<le> j \<and> j < p \<and> j \<noteq> d \<longrightarrow> overlap_count A B p j < overlap_count A B p d"
  shows "correlate A B p = Inr d"
proof -
  obtain corr where lc: "length corr = nat p"
    and cnt: "\<forall>j<nat p. corr ! j = real (overlap_count A B p (int j))"
    and cor: "correlate A B p = bind_err (np_argmax corr) (\<lambda>offset. Inr (int offset))"
    using correlate_convolution[OF assms(1), of A B] by blast
  have dl: "nat d < length corr" using assms(2,3) lc by simp
  have "\<forall>j<length corr. j \<noteq> nat d \<longrightarrow> corr ! j < corr ! nat d"
  proof (intro allI impI)
    fix j assume j: "j < length corr" "j \<noteq> nat d"
    have "0 \<le> int j \<and> int j < p \<and> int j \<noteq> d" using j lc assms(2) by auto
    then have "overlap_count A B p (int j) < overlap_count A B p d" using assms(4) by blast
    moreover have "corr ! j = real (overlap_count A B p (int j))" using cnt j(1) lc by simp
    moreover have "corr ! nat d = real (overlap_count A B p d)" using cnt dl lc assms(2) by simp
    ultimately show "corr ! j < corr ! nat d" by simp
  qed
  then have "np_argmax corr = Inr (nat d)" using dl by (intro np_argmax_unique) auto
  then show ?thesis using cor assms(2) by (simp add: bind_err_def)
qed

lemma correlate_no_overlap:
  assumes "1 \<le> p" "A = [] \<or> B = []"
  shows "correlate A B p = Inr 0"
proof -
  obtain corr where lc: "length corr = nat p"
    and cnt: "\<forall>j<nat p. corr ! j = real (overlap_count A B p (int j))"
    and cor: "correlate A B p = bind_err (np_argmax corr) (\<lambda>offset. Inr (int offset))"
    using correlate_convolution[OF assms(1), of A B] by blast
  have "overlap_count A B p j = 0" for j using assms(2) by (auto simp: overlap_count_def)
  then have "\<forall>j<length corr. corr ! j = 0" using cnt lc by simp
  moreover have "corr \<noteq> []" using lc assms(1) by auto
  ultimately have "np_argmax corr = Inr 0" by (intro np_argmax_constant) auto
  then show ?thesis using cor by (simp add: bind_err_def)
qed

lemma shift_counts:
  "overlap_count [10 + D, 50 + D, 90 + D] [10, 50, 90] p j =
     3 * of_bool (D mod p = j) + 2 * of_bool ((D + 40) mod p = j)
     + 2 * of_bool ((D - 40) mod p = j) + of_bool ((D + 80) mod p = j)
     + of_bool ((D - 80) mod p = j)"
proof -
  have "(40 + D) mod p = (D + 40) mod p" "(80 + D) mod p = (D + 80) mod p"
    by (simp_all add: add.commute)
  then show ?thesis by (simp add: overlap_count_def)
qed

lemma same_class:
  fixes D a b p :: int
  shows "(D + a) mod p = (D + b) mod p \<longleftrightarrow> p dvd (a - b)"
  by (simp add: mod_eq_dvd_iff)

lemma count_compare:
  fixes e1 e2 e3 e4 a b c :: bool
  assumes "\<not> c \<or> a" "e1 \<and> e2 \<longrightarrow> b" "e1 \<and> e3 \<longrightarrow> a" "e1 \<and> e4 \<longrightarrow> c" "e2 \<and> e3 \<longrightarrow> c"
    "e2 \<and> e4 \<longrightarrow> a" "a \<longrightarrow> \<not> e1" "a \<longrightarrow> \<not> e2" "b \<longrightarrow> \<not> e3" "b \<longrightarrow> \<not> e4" "a \<longrightarrow> b"
  shows "2 * of_bool e1 + 2 * of_bool e2 + of_bool e3 + of_bool e4
       < (3 + 4 * of_bool a + 2 * of_bool b :: nat)"
proof (cases a)
  case True
  then have "\<not> e1" "\<not> e2" "b" using assms(7,8,11) by simp_all
  then have "\<not> e3" "\<not> e4" using assms(9,10) by simp_all
  then show ?thesis using \<open>\<not> e1\<close> \<open>\<not> e2\<close> by simp
next
  case False
  then have nc: "\<not> c" using assms(1) by simp
  show ?thesis
  proof (cases b)
    case True
    then have "\<not> e3" "\<not> e4" using assms(9,10) by simp_all
    then show ?thesis using True by (cases e1; cases e2) simp_all
  next
    case nb: False
    show ?thesis
    proof (cases e1)
      case True
      then have "\<not> e2" "\<not> e3" "\<not> e4" using assms(2,3,4) False nb nc by simp_all
      then show ?thesis using True by simp
    next
      case ne1: False
      show ?thesis
      proof (cases e2)
        case True
        then have "\<not> e3" "\<not> e4" using assms(5,6) False nc by simp_all
        then show ?thesis using True ne1 by simp
      next
        case False
        then show ?thesis using ne1 by (cases e3; cases e4) simp_all
      qed
    qed
  qed
qed

lemma class_pair:
  fixes D a b p j :: int
  assumes "(D + a) mod p = j" "(D + b) mod p = j"
  shows "p dvd (a - b)"
proof -
  have "(D + a) mod p = (D + b) mod p" using assms by simp
  then show ?thesis by (simp only: same_class)
qed

lemma class_self:
  fixes D a p j :: int
  assumes "(D + a) mod p = j" "p dvd a"
  shows "j = D mod p"
proof -
  have "p dvd (a - 0)" using assms(2) by simp
  then have "(D + a) mod p = (D + 0) mod p" by (simp only: same_class)
  then show ?thesis using assms(1) by simp
qed

lemma shift_maximum:
  fixes p D j :: int
  assumes "\<not> p dvd 120 \<or> p dvd 40" "j \<noteq> D mod p"
  shows "overlap_count [10 + D, 50 + D, 90 + D] [10, 50, 90] p j
       < overlap_count [10 + D, 50 + D, 90 + D] [10, 50, 90] p (D mod p)"
proof -
  define e1 where "e1 \<longleftrightarrow> (D + 40) mod p = j"
  define e2 where "e2 \<longleftrightarrow> (D + (- 40)) mod p = j"
  define e3 where "e3 \<longleftrightarrow> (D + 80) mod p = j"
  define e4 where "e4 \<longleftrightarrow> (D + (- 80)) mod p = j"
  have c12: "e1 \<and> e2 \<longrightarrow> p dvd 80"
    unfolding e1_def e2_def using class_pair[of D 40 p j "- 40"] by auto
  have c13: "e1 \<and> e3 \<longrightarrow> p dvd 40"
    unfolding e1_def e3_def using class_pair[of D 80 p j 40] by auto
  have c14: "e1 \<and> e4 \<longrightarrow> p dvd 120"
    unfolding e1_def e4_def using class_pair[of D 40 p j "- 80"] by auto
  have c23: "e2 \<and> e3 \<longrightarrow> p dvd 120"
    unfolding e2_def e3_def using class_pair[of D 80 p j "- 40"] by auto
  have c24: "e2 \<and> e4 \<longrightarrow> p dvd 40"
    unfolding e2_def e4_def using class_pair[of D "- 40" p j "- 80"] by auto
  have n1: "p dvd 40 \<longrightarrow> \<not> e1"
    unfolding e1_def using class_self[of D 40 p j] assms(2) by auto
  have n2: "p dvd 40 \<longrightarrow> \<not> e2"
    unfolding e2_def using class_self[of D "- 40" p j] assms(2) by auto
  have n3: "p dvd 80 \<longrightarrow> \<not> e3"
    unfolding e3_def using class_self[of D 80 p j] assms(2) by auto
  have n4: "p dvd 80 \<longrightarrow> \<not> e4"
    unfolding e4_def using class_self[of D "- 80" p j] assms(2) by auto
  have i48: "p dvd 40 \<longrightarrow> p dvd 80" using dvd_mult[of p 40 2] by simp
  have s1: "(D + 40) mod p = D mod p \<longleftrightarrow> p dvd 40" using same_class[of D 40 p 0] by simp
  have s2: "(D - 40) mod p = D mod p \<longleftrightarrow> p dvd 40" using same_class[of D "- 40" p 0] by simp
  have s3: "(D + 80) mod p = D mod p \<longleftrightarrow> p dvd 80" using same_class[of D 80 p 0] by simp
  have s4: "(D - 80) mod p = D mod p \<longleftrightarrow> p dvd 80" using same_class[of D "- 80" p 0] by simp
  have lhs: "overlap_count [10 + D, 50 + D, 90 + D] [10, 50, 90] p j
      = 2 * of_bool e1 + 2 * of_bool e2 + of_bool e3 + of_bool e4"
    unfolding shift_counts e1_def e2_def e3_def e4_def using assms(2) by simp
  have rhs: "overlap_count [10 + D, 50 + D, 90 + D] [10, 50, 90] p (D mod p)
      = 3 + 4 * of_bool (p dvd 40) + 2 * of_bool (p dvd 80)"
    unfolding shift_counts s1 s2 s3 s4 by simp
  show ?thesis
    unfolding lhs rhs
    by (rule count_compare[OF assms(1) c12 c13 c14 c23 c24 n1 n2 n3 n4 i48])
qed

text \<open>
  Claim C4, as stated, fails for the modulus 3 and the shift 1: the three residue
  classes tie with three pairs each, and \<open>argmax\<close> returns the first index, 0.
\<close>

theorem correlate_counterexample:
  "correlate [10 + 1, 50 + 1, 90 + 1] [10, 50, 90] 3 = Inr 0 \<and> (1 :: int) mod 3 \<noteq> 0"
  by code_simp

lemma shift_recovered_in_sorted_order:
  assumes "1 \<le> p" "\<not> p dvd 120 \<or> p dvd 40"
  shows "correlate [10 + D, 50 + D, 90 + D] [10, 50, 90] p = Inr (D mod p)"
proof (rule correlate_unique_maximum)
  show "1 \<le> p" by fact
  show "0 \<le> D mod p" "D mod p < p" using assms(1) by simp_all
  show "\<forall>j. 0 \<le> j \<and> j < p \<and> j \<noteq> D mod p \<longrightarrow>
      overlap_count [10 + D, 50 + D, 90 + D] [10, 50, 90] p j
      < overlap_count [10 + D, 50 + D, 90 + D] [10, 50, 90] p (D mod p)"
    using shift_maximum[OF assms(2)] by blast
qed

section \<open>The order of iteration\<close>

lemma count_order:
  assumes "distinct A" "distinct A'" "set A = set A'"
  shows "length (filter P A) = length (filter P A')"
  using assms by (simp add: distinct_length_filter)

lemma histogram_a_order:
  assumes "distinct A" "distinct A'" "set A = set A'"
  shows "fold (\<lambda>x a. add_at a (x mod p)) A (np_zeros p)
       = fold (\<lambda>x a. add_at a (x mod p)) A' (np_zeros p)"
proof (rule nth_equalityI)
  show "length (fold (\<lambda>x a. add_at a (x mod p)) A (np_zeros p))
      = length (fold (\<lambda>x a. add_at a (x mod p)) A' (np_zeros p))" by simp
next
  fix i assume "i < length (fold (\<lambda>x a. add_at a (x mod p)) A (np_zeros p))"
  then have i: "i < nat p" by (simp add: np_zeros_def)
  then have p: "1 \<le> p" by simp
  show "fold (\<lambda>x a. add_at a (x mod p)) A (np_zeros p) ! i
      = fold (\<lambda>x a. add_at a (x mod p)) A' (np_zeros p) ! i"
    by (simp only: histogram_a_nth[OF p i] count_order[OF assms])
qed

lemma histogram_b_order:
  assumes "distinct B" "distinct B'" "set B = set B'"
  shows "fold (\<lambda>x b. add_at b (- (x mod p))) B (np_zeros p)
       = fold (\<lambda>x b. add_at b (- (x mod p))) B' (np_zeros p)"
proof (rule nth_equalityI)
  show "length (fold (\<lambda>x b. add_at b (- (x mod p))) B (np_zeros p))
      = length (fold (\<lambda>x b. add_at b (- (x mod p))) B' (np_zeros p))" by simp
next
  fix i assume "i < length (fold (\<lambda>x b. add_at b (- (x mod p))) B (np_zeros p))"
  then have i: "i < nat p" by (simp add: np_zeros_def)
  then have p: "1 \<le> p" by simp
  show "fold (\<lambda>x b. add_at b (- (x mod p))) B (np_zeros p) ! i
      = fold (\<lambda>x b. add_at b (- (x mod p))) B' (np_zeros p) ! i"
    by (simp only: histogram_b_nth[OF p i] count_order[OF assms])
qed

lemma correlate_order:
  assumes "distinct A" "distinct A'" "set A = set A'"
    and "distinct B" "distinct B'" "set B = set B'"
  shows "correlate A B p = correlate A' B' p"
proof -
  have "A = [] \<longleftrightarrow> A' = []" using assms(3) by (metis set_empty)
  moreover have "B = [] \<longleftrightarrow> B' = []" using assms(6) by (metis set_empty)
  ultimately show ?thesis
    unfolding correlate_def
    by (simp only: histogram_a_order[OF assms(1,2,3)] histogram_b_order[OF assms(4,5,6)])
qed

lemma overlap_loop_order:
  assumes "distinct A" "distinct A'" "set A = set A'"
    and "distinct B" "distinct B'" "set B = set B'"
  shows "overlap_loop A B modulos = overlap_loop A' B' modulos"
proof (induction modulos)
  case Nil
  show ?case by simp
next
  case (Cons p ps)
  have "correlate A B p = correlate A' B' p" by (rule correlate_order[OF assms])
  then show ?case using Cons.IH by (simp cong: sum.case_cong)
qed

lemma find_max_overlap_any_order:
  assumes "distinct A" "set A = pointers" "distinct B" "set B = strings"
  shows "find_max_overlap_iter A B modulos = find_max_overlap pointers strings modulos \<and>
         progress A B modulos
           = progress (sorted_list_of_set pointers) (sorted_list_of_set strings) modulos"
proof -
  have fa: "finite pointers" and fb: "finite strings" using assms(2,4) by auto
  have "overlap_loop A B modulos
      = overlap_loop (sorted_list_of_set pointers) (sorted_list_of_set strings) modulos"
    using assms fa fb by (intro overlap_loop_order) simp_all
  then show ?thesis by (simp add: find_max_overlap_def find_max_overlap_iter_def progress_def)
qed

text \<open>
  Claim C4, amended. For the string offsets 10, 50, 90 and the pointer targets
  \<open>10 + D\<close>, \<open>50 + D\<close>, \<open>90 + D\<close>, iterated in any order, the correlation step for a
  modulus \<open>1 \<le> p\<close> returns \<open>D mod p\<close> whenever \<open>p\<close> does not divide 120 or divides 40.
\<close>

theorem correlate_recovers_shift:
  assumes "1 \<le> p" "\<not> p dvd 120 \<or> p dvd 40"
    and "distinct A" "set A = {10 + D, 50 + D, 90 + D}" "distinct B" "set B = {10, 50, 90}"
  shows "correlate A B p = Inr (D mod p)"
proof -
  have "correlate A B p = correlate [10 + D, 50 + D, 90 + D] [10, 50, 90] p"
    using assms(3,4,5,6) by (intro correlate_order) simp_all
  then show ?thesis using shift_recovered_in_sorted_order[OF assms(1,2)] by simp
qed

theorem correlate_recovers_shift_witness:
  "(1 :: int) \<le> 7 \<and> \<not> (7 :: int) dvd 120 \<and> distinct [590, 510, 550 :: int] \<and>
   distinct [50, 90, 10 :: int] \<and>
   correlate [590, 510, 550] [50, 90, 10] 7 = Inr 3 \<and> (500 :: int) mod 7 = 3"
proof -
  have h: "(1 :: int) \<le> 7" "\<not> (7 :: int) dvd 120 \<or> (7 :: int) dvd 40"
    "distinct [590, 510, 550 :: int]" "set [590, 510, 550 :: int] = {10 + 500, 50 + 500, 90 + 500}"
    "distinct [50, 90, 10 :: int]" "set [50, 90, 10 :: int] = {10, 50, 90}"
    by auto
  have "correlate [590, 510, 550] [50, 90, 10] 7 = Inr (500 mod 7)"
    using correlate_recovers_shift[OF h] .
  then show ?thesis by simp
qed

section \<open>Runs of the main program\<close>

lemma main_unfold:
  "main args b =
     (case parse_endian (arg_e args) of
        Inl e \<Rightarrow> \<lparr>stderr = [Usage (arg_e args)], outcome = Raised e\<rparr>
      | Inr endian \<Rightarrow>
     (let a = (case arg_a args of None \<Rightarrow> arg_l args | Some a \<Rightarrow> a) in
      case slack_factor (arg_f args) a of
        Inl e \<Rightarrow> \<lparr>stderr = [], outcome = Raised e\<rparr>
      | Inr f \<Rightarrow>
     (case get_string_addresses b (arg_n args) of
        Inl e \<Rightarrow> \<lparr>stderr = [], outcome = Raised e\<rparr>
      | Inr strings \<Rightarrow>
     (let found = Text (''Found '' @ str (int (card strings)) @ '' strings'' @ [CHR 0x0A]) in
      case get_pointed_addresses b endian (arg_l args) a of
        Inl e \<Rightarrow> \<lparr>stderr = [found], outcome = Raised e\<rparr>
      | Inr pointers \<Rightarrow>
     (case lower_bound b f of
        Inl e \<Rightarrow> \<lparr>stderr = [found], outcome = Raised e\<rparr>
      | Inr n \<Rightarrow>
     (case upper_bound (arg_l args) b of
        Inl e \<Rightarrow> \<lparr>stderr = [found], outcome = Raised e\<rparr>
      | Inr m \<Rightarrow>
     (case find_coprime_numbers n m of
        None \<Rightarrow> \<lparr>stderr = [found], outcome = Hangs\<rparr>
      | Some modulos \<Rightarrow>
     (let log = [found,
            Text (progress (sorted_list_of_set pointers) (sorted_list_of_set strings) modulos)] in
      case find_max_overlap pointers strings modulos of
        Inl e \<Rightarrow> \<lparr>stderr = log, outcome = Raised e\<rparr>
      | Inr offset \<Rightarrow>
          (case report modulos offset b (arg_l args) of
             Inl e \<Rightarrow> \<lparr>stderr = log, outcome = Raised e\<rparr>
           | Inr line \<Rightarrow> \<lparr>stderr = log, outcome = Printed line\<rparr>)))))))))"
  by (simp only: main_def main_iter_def find_max_overlap_def)

lemma main_reaches_report:
  assumes "parse_endian (arg_e args) = Inr endian"
    and "slack_factor (arg_f args) (case arg_a args of None \<Rightarrow> arg_l args | Some a \<Rightarrow> a) = Inr f"
    and "get_string_addresses b (arg_n args) = Inr strings"
    and "get_pointed_addresses b endian (arg_l args)
           (case arg_a args of None \<Rightarrow> arg_l args | Some a \<Rightarrow> a) = Inr pointers"
    and "lower_bound b f = Inr n"
    and "upper_bound (arg_l args) b = Inr m"
    and "find_coprime_numbers n m = Some modulos"
    and "find_max_overlap pointers strings modulos = Inr k"
    and "report modulos k b (arg_l args) = Inr line"
  shows "outcome (main args b) = Printed line"
  by (simp only: main_unfold Let_def assms sum.case option.case run.select_convs)

lemma pow2_nonneg_exponent:
  assumes "0 \<le> l"
  shows "pow2 (l * 8) = Inr (Inl (2 ^ nat (l * 8)))"
  using assms by (simp add: pow2_def)

lemma upper_bound_nonneg_width:
  assumes "0 \<le> l"
  shows "upper_bound l b = Inr (2 ^ nat (l * 8) + int (length b))"
  by (simp only: upper_bound_def pow2_nonneg_exponent[OF assms] bind_err_def sum.case)

lemma report_cases:
  assumes "0 \<le> l"
  shows "report modulos k b l = Inr
    (if prod_list modulos - k < int (length b) then ''Offset: -'' @ hex (prod_list modulos - k)
     else if k < 2 ^ nat (l * 8) then ''Offset: '' @ hex k
     else ''Offset: not found'')"
  by (simp add: report_def Let_def pow2_nonneg_exponent[OF assms] bind_err_def)

text \<open>
  Claim C6. When the run reaches its last step with the moduli of product \<open>M\<close> and the
  Chinese remainder result \<open>k\<close>, for a pointer width \<open>0 \<le> W\<close>: if \<open>M - k\<close> is less
  than the length of the blob the program prints the negative offset \<open>-(M - k)\<close>;
  otherwise, if \<open>k < 2 ^ (W * 8)\<close>, it prints the offset \<open>k\<close>; otherwise it prints
  "not found".
\<close>

theorem main_interprets_offset:
  assumes "parse_endian (arg_e args) = Inr endian"
    and "slack_factor (arg_f args) (case arg_a args of None \<Rightarrow> arg_l args | Some a \<Rightarrow> a) = Inr f"
    and "get_string_addresses b (arg_n args) = Inr strings"
    and "get_pointed_addresses b endian (arg_l args)
           (case arg_a args of None \<Rightarrow> arg_l args | Some a \<Rightarrow> a) = Inr pointers"
    and "lower_bound b f = Inr n"
    and "upper_bound (arg_l args) b = Inr m"
    and "find_coprime_numbers n m = Some modulos"
    and "find_max_overlap pointers strings modulos = Inr k"
    and "0 \<le> arg_l args"
  shows "outcome (main args b) = Printed
    (if prod_list modulos - k < int (length b) then ''Offset: -'' @ hex (prod_list modulos - k)
     else if k < 2 ^ nat (arg_l args * 8) then ''Offset: '' @ hex k
     else ''Offset: not found'')"
  using assms(1-8) report_cases[OF assms(9)] by (rule main_reaches_report)

lemma hex_zero: "hex 0 = ''0x0''"
  by code_simp

lemma overlap_loop_no_overlap:
  assumes "\<forall>p\<in>set modulos. 1 \<le> p" "A = [] \<or> B = []"
  shows "overlap_loop A B modulos = (map (\<lambda>p. 0) modulos, None)"
  using assms(1)
proof (induction modulos)
  case Nil
  show ?case by simp
next
  case (Cons p ps)
  have "correlate A B p = Inr 0" using Cons.prems assms(2) by (intro correlate_no_overlap) auto
  moreover have "overlap_loop A B ps = (map (\<lambda>p. 0) ps, None)" using Cons by simp
  ultimately show ?case by simp
qed

lemma crt_zero:
  assumes "\<forall>p\<in>set ms. 0 < p" "pairwise_coprime ms"
  shows "crt ms (map (\<lambda>p. 0) ms) = Inr 0"
proof -
  have len: "length (map (\<lambda>p. 0 :: int) ms) = length ms" by simp
  obtain k where k: "crt ms (map (\<lambda>p. 0) ms) = Inr k" "0 \<le> k" "k < prod_list ms"
    "\<forall>i<length ms. k mod ms ! i = map (\<lambda>p. 0) ms ! i mod ms ! i"
    using crt_solution[OF assms len] by blast
  have M: "0 < prod_list ms" using assms(1) by (rule prod_list_pos)
  have "\<forall>i<length ms. k mod ms ! i = 0 mod ms ! i" using k(4) by simp
  then have "0 = k" using crt_unique[OF assms k(2,3) _ M, of ] by simp
  then show ?thesis using k(1) by simp
qed

lemma overlap_loop_no_overlap_sets:
  assumes "\<forall>p\<in>set ms. 1 \<le> p" "pointers = {} \<or> strings = {}"
  shows "overlap_loop (sorted_list_of_set pointers) (sorted_list_of_set strings) ms
      = (map (\<lambda>p. 0) ms, None)"
proof -
  have "sorted_list_of_set pointers = [] \<or> sorted_list_of_set strings = []"
    using assms(2) by auto
  then show ?thesis using assms(1) by (intro overlap_loop_no_overlap)
qed

lemma find_max_overlap_no_overlap:
  assumes "\<forall>p\<in>set ms. 1 \<le> p" "pairwise_coprime ms" "pointers = {} \<or> strings = {}"
  shows "find_max_overlap pointers strings ms = Inr 0"
proof -
  have "overlap_loop (sorted_list_of_set pointers) (sorted_list_of_set strings) ms
      = (map (\<lambda>p. 0) ms, None)"
    using assms(1,3) by (rule overlap_loop_no_overlap_sets)
  moreover have "crt ms (map (\<lambda>p. 0) ms) = Inr 0"
  proof (rule crt_zero[OF _ assms(2)])
    show "\<forall>p\<in>set ms. 0 < p" using assms(1) by force
  qed
  ultimately show ?thesis by (simp add: find_max_overlap_def find_max_overlap_iter_def)
qed

lemma main_no_overlap:
  assumes "parse_endian (arg_e args) = Inr endian"
    and "slack_factor (arg_f args) (case arg_a args of None \<Rightarrow> arg_l args | Some a \<Rightarrow> a) = Inr f"
    and "lower_bound b f = Inr n" and "0 \<le> n" and "0 \<le> arg_l args"
    and "get_string_addresses b (arg_n args) = Inr strings"
    and "get_pointed_addresses b endian (arg_l args)
           (case arg_a args of None \<Rightarrow> arg_l args | Some a \<Rightarrow> a) = Inr pointers"
    and "strings = {} \<or> pointers = {}"
  shows "\<exists>modulos.
           find_coprime_numbers n (2 ^ nat (arg_l args * 8) + int (length b)) = Some modulos \<and>
           overlap_loop (sorted_list_of_set pointers) (sorted_list_of_set strings) modulos
             = (map (\<lambda>p. 0) modulos, None) \<and>
           find_max_overlap pointers strings modulos = Inr 0 \<and>
           outcome (main args b) = Printed ''Offset: 0x0''"
proof -
  define m where "m = 2 ^ nat (arg_l args * 8) + int (length b)"
  have up: "upper_bound (arg_l args) b = Inr m"
    unfolding m_def using assms(5) by (rule upper_bound_nonneg_width)
  have n0: "0 \<le> n" by (rule assms(4))
  obtain modulos where ms: "find_coprime_numbers n m = Some modulos"
    using find_coprime_numbers_terminates[of n m] n0 by auto
  have post: "loop_post n m modulos" using find_coprime_numbers_partial[OF ms] by simp
  have ge1: "\<forall>p\<in>set modulos. 1 \<le> p"
  proof
    fix p assume "p \<in> set modulos"
    then have "n < p" using post by (simp add: loop_post_def)
    then show "1 \<le> p" using n0 by simp
  qed
  have pc: "pairwise_coprime modulos" and big: "m < prod_list modulos"
    using post by (simp_all add: loop_post_def)
  have em: "pointers = {} \<or> strings = {}" using assms(8) by auto
  have offs: "overlap_loop (sorted_list_of_set pointers) (sorted_list_of_set strings) modulos
      = (map (\<lambda>p. 0) modulos, None)"
    using ge1 em by (rule overlap_loop_no_overlap_sets)
  have k: "find_max_overlap pointers strings modulos = Inr 0"
    using ge1 pc em by (rule find_max_overlap_no_overlap)
  have "int (length b) \<le> m" by (simp add: m_def)
  then have far: "\<not> prod_list modulos - 0 < int (length b)" using big by simp
  have "(0 :: int) < 2 ^ nat (arg_l args * 8)" by simp
  then have "report modulos 0 b (arg_l args) = Inr (''Offset: '' @ hex 0)"
    using far by (simp only: report_cases[OF assms(5)] if_True if_False)
  then have line: "report modulos 0 b (arg_l args) = Inr ''Offset: 0x0''"
    by (simp add: hex_zero)
  have "outcome (main args b) = Printed ''Offset: 0x0''"
    using assms(1,2,6,7,3) up ms k line by (rule main_reaches_report)
  then show ?thesis using ms offs k unfolding m_def by blast
qed




theorem main_interprets_offset_witness:
  "parse_endian (arg_e (default_args\<lparr>arg_n := 2, arg_l := 1, arg_a := Some 4\<rparr>)) = Inr Little \<and>
   slack_factor (arg_f (default_args\<lparr>arg_n := 2, arg_l := 1, arg_a := Some 4\<rparr>)) 4
     = Inr (Finite 1 0) \<and>
   get_string_addresses [0xC9, 0x41, 0x42, 0, 0xCD, 0x43, 0x44, 0] 2 = Inr {1, 5} \<and>
   get_pointed_addresses [0xC9, 0x41, 0x42, 0, 0xCD, 0x43, 0x44, 0] Little 1 4 = Inr {201, 205} \<and>
   lower_bound [0xC9, 0x41, 0x42, 0, 0xCD, 0x43, 0x44, 0] (Finite 1 0) = Inr 8 \<and>
   upper_bound 1 [0xC9, 0x41, 0x42, 0, 0xCD, 0x43, 0x44, 0] = Inr 264 \<and>
   find_coprime_numbers 8 264 = Some [9, 11, 13] \<and>
   find_max_overlap {201, 205} {1, 5} [9, 11, 13] = Inr 200 \<and>
   outcome (main (default_args\<lparr>arg_n := 2, arg_l := 1, arg_a := Some 4\<rparr>)
     [0xC9, 0x41, 0x42, 0, 0xCD, 0x43, 0x44, 0]) = Printed ''Offset: 0xc8''"
proof -
  let ?args = "default_args\<lparr>arg_n := 2, arg_l := 1, arg_a := Some 4\<rparr>"
  let ?b = "[0xC9, 0x41, 0x42, 0, 0xCD, 0x43, 0x44, 0 :: byte]"
  have sel: "arg_n ?args = 2" "arg_l ?args = 1" "arg_a ?args = Some 4" by simp_all
  have h1: "parse_endian (arg_e ?args) = Inr Little" by code_simp
  have h2: "slack_factor (arg_f ?args) 4 = Inr (Finite 1 0)" by code_simp
  have h3: "get_string_addresses ?b 2 = Inr {1, 5}" by code_simp
  have h4: "get_pointed_addresses ?b Little 1 4 = Inr {201, 205}" by code_simp
  have h5: "lower_bound ?b (Finite 1 0) = Inr 8" by code_simp
  have h6: "upper_bound 1 ?b = Inr 264" by code_simp
  have h7: "find_coprime_numbers 8 264 = Some [9, 11, 13]" by code_simp
  have h8: "find_max_overlap {201, 205} {1, 5} [9, 11, 13] = Inr 200" by code_simp
  have "outcome (main ?args ?b) = Printed
    (if prod_list [9, 11, 13] - 200 < int (length ?b) then ''Offset: -'' @ hex (prod_list [9, 11, 13] - 200)
     else if (200 :: int) < 2 ^ nat (arg_l ?args * 8) then ''Offset: '' @ hex 200
     else ''Offset: not found'')"
  proof (rule main_interprets_offset[where endian = Little and f = "Finite 1 0"
        and strings = "{1, 5}" and pointers = "{201, 205}" and n = 8 and m = 264])
    show "parse_endian (arg_e ?args) = Inr Little" by (rule h1)
    show "slack_factor (arg_f ?args) (case arg_a ?args of None \<Rightarrow> arg_l ?args | Some a \<Rightarrow> a)
        = Inr (Finite 1 0)"
      using h2 by (simp only: sel option.case)
    show "get_string_addresses ?b (arg_n ?args) = Inr {1, 5}" using h3 by (simp only: sel)
    show "get_pointed_addresses ?b Little (arg_l ?args)
        (case arg_a ?args of None \<Rightarrow> arg_l ?args | Some a \<Rightarrow> a) = Inr {201, 205}"
      using h4 by (simp only: sel option.case)
    show "lower_bound ?b (Finite 1 0) = Inr 8" by (rule h5)
    show "upper_bound (arg_l ?args) ?b = Inr 264" using h6 by (simp only: sel)
    show "find_coprime_numbers 8 264 = Some [9, 11, 13]" by (rule h7)
    show "find_max_overlap {201, 205} {1, 5} [9, 11, 13] = Inr 200" by (rule h8)
    show "0 \<le> arg_l ?args" by simp
  qed
  moreover have "hex 200 = ''0xc8''" by code_simp
  ultimately have "outcome (main ?args ?b) = Printed ''Offset: 0xc8''" by simp
  then show ?thesis using h1 h2 h3 h4 h5 h6 h7 h8 by blast
qed

text \<open>The first branch of the last step: pointers three bytes below their strings.\<close>

lemma main_negative_offset_example:
  "outcome (main (default_args\<lparr>arg_n := 2, arg_l := 1, arg_a := Some 4\<rparr>)
     [2, 0x80, 0x80, 0x80, 6, 0x41, 0x42, 0, 0xFF, 0x43, 0x44, 0]) = Printed ''Offset: -0x3''"
  by code_simp

text \<open>
  The rounding of the product \<open>len(b) * f\<close>: the float nearest to 0.3 is a little below
  0.3, yet ten times it rounds to 3.0, and the lower bound of the moduli is 3. With
  one-byte pointers the moduli of a blob of ten bytes are then 5, 7 and 9.
\<close>

lemma lower_bound_rounds:
  "round_double 3 10 = Finite 5404319552844595 (- 54) \<and>
   lower_bound (replicate 10 0) (Finite 5404319552844595 (- 54)) = Inr 3 \<and>
   upper_bound 1 (replicate 10 0) = Inr 266 \<and>
   find_coprime_numbers 3 266 = Some [5, 7, 9]"
  by code_simp

text \<open>A slack factor so large that the product is infinite: \<open>int\<close> raises.\<close>

lemma main_infinite_lower_bound:
  "round_double (10 ^ 308) 1 = Finite 5010420900022432 971 \<and>
   main (default_args\<lparr>arg_l := 1, arg_f := Some (Finite 5010420900022432 971)\<rparr>) [5, 5]
     = \<lparr>stderr = [Text (''Found 0 strings'' @ [CHR 0x0A])], outcome = Raised OverflowError\<rparr>"
  by code_simp

text \<open>
  Claim C5, as stated, fails. With a minimum string length 0, with a pointer width 0,
  with an alignment \<open>-4\<close>, and with a slack factor that puts the lower bound of the
  moduli above their upper bound, the program extracts and prints an offset.
\<close>

theorem invalid_configuration_counterexample:
  "arg_n (default_args\<lparr>arg_n := 0, arg_l := 1, arg_a := Some 4\<rparr>) \<le> 0 \<and>
   main (default_args\<lparr>arg_n := 0, arg_l := 1, arg_a := Some 4\<rparr>)
     [0xC9, 0x41, 0x42, 0, 0xCD, 0x43, 0x44, 0]
   = \<lparr>stderr = [Text (''Found 2 strings'' @ [CHR 0x0A]),
                Text (''0/3'' @ [CHR 0x0D] @ ''1/3'' @ [CHR 0x0D] @ ''2/3'' @ [CHR 0x0D]
                  @ ''3/3'' @ [CHR 0x0A])],
      outcome = Printed ''Offset: 0xc8''\<rparr> \<and>
   arg_l (default_args\<lparr>arg_n := 2, arg_l := 0, arg_a := Some 4\<rparr>) \<le> 0 \<and>
   get_pointed_addresses [0xC9, 0x41, 0x42, 0] Little 0 4 = Inr {0} \<and>
   get_string_addresses [0xC9, 0x41, 0x42, 0] 2 = Inr {1} \<and>
   outcome (main (default_args\<lparr>arg_n := 2, arg_l := 0, arg_a := Some 4\<rparr>)
     [0xC9, 0x41, 0x42, 0]) = Printed ''Offset: -0x1'' \<and>
   outcome (main (default_args\<lparr>arg_n := 2, arg_l := 1, arg_a := Some (- 4),
       arg_f := Some (Finite 1 0)\<rparr>)
     [0xC9, 0x41, 0x42, 0, 0xCD, 0x43, 0x44, 0]) = Printed ''Offset: 0x0'' \<and>
   upper_bound (arg_l (default_args\<lparr>arg_l := 2, arg_f := Some (Finite 70000 0)\<rparr>)) [0x41]
     = Inr 65537 \<and>
   lower_bound [0x41] (Finite 70000 0) = Inr 70000 \<and>
   outcome (main (default_args\<lparr>arg_l := 2, arg_f := Some (Finite 70000 0)\<rparr>) [0x41])
     = Printed ''Offset: 0x0''"
proof -
  let ?big = "default_args\<lparr>arg_l := 2, arg_f := Some (Finite 70000 0)\<rparr>"
  have 1: "arg_n (default_args\<lparr>arg_n := 0, arg_l := 1, arg_a := Some 4\<rparr>) \<le> 0" by simp
  have 2: "main (default_args\<lparr>arg_n := 0, arg_l := 1, arg_a := Some 4\<rparr>)
     [0xC9, 0x41, 0x42, 0, 0xCD, 0x43, 0x44, 0]
   = \<lparr>stderr = [Text (''Found 2 strings'' @ [CHR 0x0A]),
                Text (''0/3'' @ [CHR 0x0D] @ ''1/3'' @ [CHR 0x0D] @ ''2/3'' @ [CHR 0x0D]
                  @ ''3/3'' @ [CHR 0x0A])],
      outcome = Printed ''Offset: 0xc8''\<rparr>" by code_simp
  have 3: "arg_l (default_args\<lparr>arg_n := 2, arg_l := 0, arg_a := Some 4\<rparr>) \<le> 0" by simp
  have 4: "get_pointed_addresses [0xC9, 0x41, 0x42, 0] Little 0 4 = Inr {0}" by code_simp
  have 5: "get_string_addresses [0xC9, 0x41, 0x42, 0] 2 = Inr {1}" by code_simp
  have 6: "outcome (main (default_args\<lparr>arg_n := 2, arg_l := 0, arg_a := Some 4\<rparr>)
     [0xC9, 0x41, 0x42, 0]) = Printed ''Offset: -0x1''" by code_simp
  have 7: "outcome (main (default_args\<lparr>arg_n := 2, arg_l := 1, arg_a := Some (- 4),
       arg_f := Some (Finite 1 0)\<rparr>)
     [0xC9, 0x41, 0x42, 0, 0xCD, 0x43, 0x44, 0]) = Printed ''Offset: 0x0''" by code_simp
  have 8: "upper_bound (arg_l ?big) [0x41] = Inr 65537" by code_simp
  have 9: "lower_bound [0x41] (Finite 70000 0) = Inr 70000" by code_simp
  have "\<exists>modulos.
      find_coprime_numbers 70000 (2 ^ nat (arg_l ?big * 8) + int (length [0x41 :: byte]))
        = Some modulos \<and>
      overlap_loop (sorted_list_of_set {}) (sorted_list_of_set {}) modulos
        = (map (\<lambda>p. 0) modulos, None) \<and>
      find_max_overlap {} {} modulos = Inr 0 \<and>
      outcome (main ?big [0x41]) = Printed ''Offset: 0x0''"
  proof (rule main_no_overlap[where endian = Little and f = "Finite 70000 0"])
    show "parse_endian (arg_e ?big) = Inr Little" by code_simp
    show "slack_factor (arg_f ?big) (case arg_a ?big of None \<Rightarrow> arg_l ?big | Some a \<Rightarrow> a)
        = Inr (Finite 70000 0)"
      by (simp add: slack_factor_def)
    show "lower_bound [0x41] (Finite 70000 0) = Inr 70000" by (rule 9)
    show "(0 :: int) \<le> 70000" by simp
    show "0 \<le> arg_l ?big" by simp
    show "get_string_addresses [0x41] (arg_n ?big) = Inr {}" by code_simp
    show "get_pointed_addresses [0x41] Little (arg_l ?big)
        (case arg_a ?big of None \<Rightarrow> arg_l ?big | Some a \<Rightarrow> a) = Inr {}"
      by code_simp
    show "({} :: int set) = {} \<or> ({} :: int set) = {}" by simp
  qed
  then have 10: "outcome (main ?big [0x41]) = Printed ''Offset: 0x0''" by blast
  show ?thesis using 1 2 3 4 5 6 7 8 9 10 by blast
qed

lemma stderr_case_sum:
  assumes "\<And>e. \<exists>r. stderr (f e) = p # r" "\<And>v. \<exists>r. stderr (g v) = p # r"
  shows "\<exists>r. stderr (case x of Inl e \<Rightarrow> f e | Inr v \<Rightarrow> g v) = p # r"
  using assms by (cases x) simp_all

lemma stderr_case_option:
  assumes "\<exists>r. stderr f = p # r" "\<And>v. \<exists>r. stderr (g v) = p # r"
  shows "\<exists>r. stderr (case x of None \<Rightarrow> f | Some v \<Rightarrow> g v) = p # r"
  using assms by (cases x) simp_all

lemma main_writes_string_count:
  assumes "parse_endian (arg_e args) = Inr endian"
    and "slack_factor (arg_f args) (case arg_a args of None \<Rightarrow> arg_l args | Some a \<Rightarrow> a) = Inr f"
    and "get_string_addresses b (arg_n args) = Inr strings"
  shows "\<exists>rest. stderr (main args b) =
           Text (''Found '' @ str (int (card strings)) @ '' strings'' @ [CHR 0x0A]) # rest"
  unfolding main_unfold Let_def
  apply (simp only: assms sum.case)
  apply (rule stderr_case_sum)
   apply (simp only: run.select_convs)
   apply (rule exI)
   apply (rule refl)
  apply (rule stderr_case_sum)
   apply (simp only: run.select_convs)
   apply (rule exI)
   apply (rule refl)
  apply (rule stderr_case_sum)
   apply (simp only: run.select_convs)
   apply (rule exI)
   apply (rule refl)
  apply (rule stderr_case_option)
   apply (simp only: run.select_convs)
   apply (rule exI)
   apply (rule refl)
  apply (rule stderr_case_sum)
   apply (simp only: run.select_convs)
   apply (rule exI)
   apply (rule refl)
  apply (rule stderr_case_sum)
   apply (simp only: run.select_convs)
   apply (rule exI)
   apply (rule refl)
  apply (simp only: run.select_convs)
  apply (rule exI)
  apply (rule refl)
  done

text \<open>
  Claim C5, amended. The program rejects a byte order other than \<open>little\<close> and \<open>big\<close>
  before any extraction: the parser writes its usage message and exits. Nothing else is
  validated first: for a supported byte order, whenever the slack factor is computed and
  the minimum string length is below the repetition limit of the pattern, the strings are
  extracted and their number is the first thing written, whatever the minimum string
  length, the pointer width and the alignment are.
\<close>

theorem main_validates_endianness_only:
  "(arg_e args \<noteq> ''little'' \<and> arg_e args \<noteq> ''big'' \<longrightarrow>
      main args b = \<lparr>stderr = [Usage (arg_e args)], outcome = Raised UsageError\<rparr>) \<and>
   (parse_endian (arg_e args) = Inr endian \<and>
    slack_factor (arg_f args) (case arg_a args of None \<Rightarrow> arg_l args | Some a \<Rightarrow> a) = Inr f \<and>
    arg_n args < MAXREPEAT \<longrightarrow>
      (\<exists>rest. stderr (main args b) =
         Text (''Found '' @ str (int (card (set (finditer (arg_n args) 0 b)))) @ '' strings''
           @ [CHR 0x0A]) # rest))"
proof (intro conjI impI)
  assume "arg_e args \<noteq> ''little'' \<and> arg_e args \<noteq> ''big''"
  then have "parse_endian (arg_e args) = Inl UsageError" by (simp add: parse_endian_def)
  then show "main args b = \<lparr>stderr = [Usage (arg_e args)], outcome = Raised UsageError\<rparr>"
    by (simp only: main_unfold sum.case)
next
  assume h: "parse_endian (arg_e args) = Inr endian \<and>
    slack_factor (arg_f args) (case arg_a args of None \<Rightarrow> arg_l args | Some a \<Rightarrow> a) = Inr f \<and>
    arg_n args < MAXREPEAT"
  then have s: "get_string_addresses b (arg_n args) = Inr (set (finditer (arg_n args) 0 b))"
    by (simp add: get_string_addresses_def)
  show "\<exists>rest. stderr (main args b) =
         Text (''Found '' @ str (int (card (set (finditer (arg_n args) 0 b)))) @ '' strings''
           @ [CHR 0x0A]) # rest"
    using h s by (intro main_writes_string_count) simp_all
qed

theorem main_validates_endianness_only_witness:
  "arg_e (default_args\<lparr>arg_e := ''middle''\<rparr>) \<noteq> ''little'' \<and>
   arg_e (default_args\<lparr>arg_e := ''middle''\<rparr>) \<noteq> ''big'' \<and>
   main (default_args\<lparr>arg_e := ''middle''\<rparr>) [0x41, 0x42, 0]
     = \<lparr>stderr = [Usage ''middle''], outcome = Raised UsageError\<rparr> \<and>
   parse_endian (arg_e (default_args\<lparr>arg_n := 0\<rparr>)) = Inr Little \<and>
   slack_factor (arg_f (default_args\<lparr>arg_n := 0\<rparr>))
     (case arg_a (default_args\<lparr>arg_n := 0\<rparr>) of
        None \<Rightarrow> arg_l (default_args\<lparr>arg_n := 0\<rparr>) | Some a \<Rightarrow> a) = Inr (Finite 1 0) \<and>
   arg_n (default_args\<lparr>arg_n := 0\<rparr>) < MAXREPEAT \<and>
   hd (stderr (main (default_args\<lparr>arg_n := 0\<rparr>) [0x41, 0x42, 0]))
     = Text (''Found 1 strings'' @ [CHR 0x0A])"
proof -
  have a: "arg_e (default_args\<lparr>arg_e := ''middle''\<rparr>) \<noteq> ''little'' \<and>
      arg_e (default_args\<lparr>arg_e := ''middle''\<rparr>) \<noteq> ''big''" by simp
  have "main (default_args\<lparr>arg_e := ''middle''\<rparr>) [0x41, 0x42, 0]
     = \<lparr>stderr = [Usage (arg_e (default_args\<lparr>arg_e := ''middle''\<rparr>))], outcome = Raised UsageError\<rparr>"
    using main_validates_endianness_only[of "default_args\<lparr>arg_e := ''middle''\<rparr>" "[0x41, 0x42, 0]"] a
    by blast
  then have r1: "main (default_args\<lparr>arg_e := ''middle''\<rparr>) [0x41, 0x42, 0]
     = \<lparr>stderr = [Usage ''middle''], outcome = Raised UsageError\<rparr>"
    by simp
  have h1: "parse_endian (arg_e (default_args\<lparr>arg_n := 0\<rparr>)) = Inr Little" by code_simp
  have h2: "slack_factor (arg_f (default_args\<lparr>arg_n := 0\<rparr>))
     (case arg_a (default_args\<lparr>arg_n := 0\<rparr>) of
        None \<Rightarrow> arg_l (default_args\<lparr>arg_n := 0\<rparr>) | Some a \<Rightarrow> a) = Inr (Finite 1 0)" by code_simp
  have h3: "arg_n (default_args\<lparr>arg_n := 0\<rparr>) < MAXREPEAT" by code_simp
  have c: "str (int (card (set (finditer (arg_n (default_args\<lparr>arg_n := 0\<rparr>)) 0 [0x41, 0x42, 0])))) = ''1''"
    by code_simp
  obtain rest where "stderr (main (default_args\<lparr>arg_n := 0\<rparr>) [0x41, 0x42, 0]) =
      Text (''Found '' @ str (int (card (set (finditer (arg_n (default_args\<lparr>arg_n := 0\<rparr>)) 0 [0x41, 0x42, 0]))))
        @ '' strings'' @ [CHR 0x0A]) # rest"
    using main_validates_endianness_only[of "default_args\<lparr>arg_n := 0\<rparr>" "[0x41, 0x42, 0]"
        Little "Finite 1 0"]
      h1 h2 h3 by blast
  then have "hd (stderr (main (default_args\<lparr>arg_n := 0\<rparr>) [0x41, 0x42, 0]))
      = Text (''Found 1 strings'' @ [CHR 0x0A])"
    by (simp only: c) simp
  then show ?thesis using a r1 h1 h2 h3 by blast
qed

section \<open>Determinism\<close>

lemma get_string_addresses_finite:
  "get_string_addresses b n = Inr strings \<Longrightarrow> finite strings"
  by (auto simp: get_string_addresses_def split: if_splits)

lemma get_pointed_addresses_finite:
  "get_pointed_addresses b e len align = Inr pointers \<Longrightarrow> finite pointers"
  by (auto simp: get_pointed_addresses_def bind_err_def scan_pointers_image split: sum.splits)

text \<open>
  Claim C8. The program is a function of the arguments and the blob, and so is each of
  its stages, \<open>get_string_addresses\<close> among them: two runs on the same input go through
  the same computation. The one thing the language leaves open is the order in which the
  two sets are iterated, and the result does not depend on it: for all orders of
  iteration the run, its output and what it writes to the standard error stream are the
  same.
\<close>

theorem main_is_deterministic:
  assumes "\<forall>S. finite S \<longrightarrow> distinct (iter_A S) \<and> set (iter_A S) = S"
    and "\<forall>S. finite S \<longrightarrow> distinct (iter_B S) \<and> set (iter_B S) = S"
  shows "main_iter iter_A iter_B args b = main args b"
proof (cases "parse_endian (arg_e args)")
  case (Inl e)
  then show ?thesis by (simp only: main_def main_iter_def sum.case)
next
  case endian: (Inr endian)
  let ?a = "case arg_a args of None \<Rightarrow> arg_l args | Some a \<Rightarrow> a"
  show ?thesis
  proof (cases "slack_factor (arg_f args) ?a")
    case (Inl e)
    then show ?thesis by (simp only: main_def main_iter_def Let_def endian sum.case)
  next
    case f: (Inr f)
    show ?thesis
    proof (cases "get_string_addresses b (arg_n args)")
      case (Inl e)
      then show ?thesis by (simp only: main_def main_iter_def Let_def endian f sum.case)
    next
      case strings: (Inr strings)
      have fs: "finite strings" using strings by (rule get_string_addresses_finite)
      show ?thesis
      proof (cases "get_pointed_addresses b endian (arg_l args) ?a")
        case (Inl e)
        then show ?thesis
          by (simp only: main_def main_iter_def Let_def endian f strings sum.case)
      next
        case pointers: (Inr pointers)
        have fp: "finite pointers" using pointers by (rule get_pointed_addresses_finite)
        show ?thesis
        proof (cases "lower_bound b f")
          case (Inl e)
          then show ?thesis
            by (simp only: main_def main_iter_def Let_def endian f strings pointers sum.case)
        next
          case n: (Inr n)
          show ?thesis
          proof (cases "upper_bound (arg_l args) b")
            case (Inl e)
            then show ?thesis
              by (simp only: main_def main_iter_def Let_def endian f strings pointers n sum.case)
          next
            case m: (Inr m)
            show ?thesis
        proof (cases "find_coprime_numbers n m")
          case None
          then show ?thesis
            by (simp only: main_def main_iter_def Let_def endian f strings pointers n m sum.case
                option.case)
        next
          case (Some modulos)
          have A: "distinct (iter_A pointers)" "set (iter_A pointers) = pointers"
            using assms(1) fp by simp_all
          have B: "distinct (iter_B strings)" "set (iter_B strings) = strings"
            using assms(2) fs by simp_all
          have o: "find_max_overlap_iter (iter_A pointers) (iter_B strings) modulos
                = find_max_overlap pointers strings modulos"
            and p: "progress (iter_A pointers) (iter_B strings) modulos
                = progress (sorted_list_of_set pointers) (sorted_list_of_set strings) modulos"
            using find_max_overlap_any_order[OF A B, of modulos] by simp_all
          have o': "find_max_overlap_iter (iter_A pointers) (iter_B strings) modulos
                = find_max_overlap_iter (sorted_list_of_set pointers) (sorted_list_of_set strings)
                    modulos"
            using o by (simp only: find_max_overlap_def)
          show ?thesis
            by (simp only: main_def main_iter_def Let_def endian f strings pointers n m Some
                sum.case option.case o' p)
        qed
          qed
        qed
      qed
    qed
  qed
qed

theorem main_is_deterministic_witness:
  "main_iter (rev \<circ> sorted_list_of_set) (rev \<circ> sorted_list_of_set)
     (default_args\<lparr>arg_n := 2, arg_l := 1, arg_a := Some 4\<rparr>)
     [0xC9, 0x41, 0x42, 0, 0xCD, 0x43, 0x44, 0]
   = main (default_args\<lparr>arg_n := 2, arg_l := 1, arg_a := Some 4\<rparr>)
       [0xC9, 0x41, 0x42, 0, 0xCD, 0x43, 0x44, 0] \<and>
   (rev \<circ> sorted_list_of_set) {201, 205 :: int} = [205, 201] \<and>
   sorted_list_of_set {201, 205 :: int} = [201, 205] \<and>
   outcome (main (default_args\<lparr>arg_n := 2, arg_l := 1, arg_a := Some 4\<rparr>)
       [0xC9, 0x41, 0x42, 0, 0xCD, 0x43, 0x44, 0]) = Printed ''Offset: 0xc8''"
proof -
  have h: "\<forall>S :: int set. finite S \<longrightarrow>
      distinct ((rev \<circ> sorted_list_of_set) S) \<and> set ((rev \<circ> sorted_list_of_set) S) = S"
    by simp
  have 1: "main_iter (rev \<circ> sorted_list_of_set) (rev \<circ> sorted_list_of_set)
     (default_args\<lparr>arg_n := 2, arg_l := 1, arg_a := Some 4\<rparr>)
     [0xC9, 0x41, 0x42, 0, 0xCD, 0x43, 0x44, 0]
   = main (default_args\<lparr>arg_n := 2, arg_l := 1, arg_a := Some 4\<rparr>)
       [0xC9, 0x41, 0x42, 0, 0xCD, 0x43, 0x44, 0]"
    using main_is_deterministic[OF h h] .
  have 2: "(rev \<circ> sorted_list_of_set) {201, 205 :: int} = [205, 201]" by code_simp
  have 3: "sorted_list_of_set {201, 205 :: int} = [201, 205]" by code_simp
  have 4: "outcome (main (default_args\<lparr>arg_n := 2, arg_l := 1, arg_a := Some 4\<rparr>)
       [0xC9, 0x41, 0x42, 0, 0xCD, 0x43, 0x44, 0]) = Printed ''Offset: 0xc8''" by code_simp
  show ?thesis using 1 2 3 4 by blast
qed

end
